theory Spec2Isabelle
  imports Complex_Main "HOL-Library.AList"
begin

section \<open>Data model of the browser server (browser-server.js)\<close>

text \<open>
  The browser server keeps one module-level \<^verbatim>\<open>Map\<close> from session id to session
  object. A JavaScript \<^verbatim>\<open>Map\<close> iterates in insertion order and holds each key once,
  so the registry is an association list: \<^verbatim>\<open>get\<close> is \<open>map_of\<close>, \<^verbatim>\<open>set\<close> is
  \<open>AList.update\<close> (a new key goes to the end, an existing key keeps its place),
  \<^verbatim>\<open>delete\<close> is \<open>AList.delete\<close> and \<^verbatim>\<open>size\<close> is \<open>length\<close>.

  Browser and page objects are opaque handles. Timestamps are the integers of
  \<^verbatim>\<open>Date.now()\<close>. An awaited call into puppeteer or sharp either yields its value or
  rejects with an \<^verbatim>\<open>Error\<close> carrying a message: \<open>Inl msg\<close> is the rejection.
  Every handler is modelled as running to completion before the next one starts.
\<close>

type_synonym sid = string
type_synonym page = nat
type_synonym browser = nat
type_synonym metadata = "(string \<times> string) list"
type_synonym 'a outcome = "string + 'a"

record config =
  PORT :: nat
  MAX_SESSIONS :: nat
  SESSION_TIMEOUT_MS :: int
  MAX_PAGES_PER_SESSION :: nat
  CLEANUP_INTERVAL_MS :: int

definition CONFIG :: config where
  "CONFIG = \<lparr>PORT = 3000, MAX_SESSIONS = 5, SESSION_TIMEOUT_MS = 5 * 60 * 1000,
     MAX_PAGES_PER_SESSION = 10, CLEANUP_INTERVAL_MS = 60 * 1000\<rparr>"

record session =
  id' :: sid
  browser :: browser
  pages :: "page list"
  lastAccessed :: int
  currentUrl :: "string option"
  metadata :: metadata

text \<open>
  What the teardown of a session does to the outside world, in the order it happens:
  a page closed, a page whose close failed (caught and logged with its message), the
  browser closed, a browser close that failed (caught and logged), the map entry removed.
\<close>

datatype event =
    PageClosed page
  | PageCloseError page string
  | BrowserClosed browser
  | DestroyError sid string
  | Deleted sid

record server =
  sessions :: "(sid \<times> session) list"
  trace :: "event list"

definition init :: server where
  "init = \<lparr>sessions = [], trace = []\<rparr>"

text \<open>How \<^verbatim>\<open>page.close()\<close> and \<^verbatim>\<open>browser.close()\<close> answer: \<open>Some msg\<close> is a rejection.\<close>

record env =
  page_close :: "page \<Rightarrow> string option"
  browser_close :: "browser \<Rightarrow> string option"

text \<open>
  The errors thrown inside the server. The code throws plain \<^verbatim>\<open>Error\<close> objects and
  the routes send \<^verbatim>\<open>error.message\<close>; the constructor records where the throw comes
  from, \<open>message\<close> is the text the code builds.
\<close>

datatype error =
    SessionLimit nat
  | SessionNotFound sid
  | Rejected string
  | UndefinedRead

fun show_nat :: "nat \<Rightarrow> string" where
  "show_nat n =
     (if n < 10 then [char_of (48 + n)] else show_nat (n div 10) @ [char_of (48 + n mod 10)])"

declare show_nat.simps [simp del]

fun message :: "error \<Rightarrow> string" where
  "message (SessionLimit n) = ''Maximum session limit reached ('' @ show_nat n @ '')''"
| "message (SessionNotFound s) = ''Session not found: '' @ s"
| "message (Rejected m) = m"
| "message UndefinedRead = ''Cannot read properties of undefined''"

section \<open>Session management\<close>

text \<open>
  \<^verbatim>\<open>destroySession\<close>: absent id returns false. Otherwise every page is closed inside its
  own try/catch, then the browser is closed inside the outer try/catch, then the entry
  is deleted and true is returned.
\<close>

fun close_pages :: "env \<Rightarrow> page list \<Rightarrow> event list" where
  "close_pages e [] = []"
| "close_pages e (p # ps) =
     (case page_close e p of None \<Rightarrow> PageClosed p | Some m \<Rightarrow> PageCloseError p m)
       # close_pages e ps"

definition close_browser :: "env \<Rightarrow> sid \<Rightarrow> browser \<Rightarrow> event" where
  "close_browser e sessionId b =
     (case browser_close e b of None \<Rightarrow> BrowserClosed b | Some m \<Rightarrow> DestroyError sessionId m)"

definition destroySession :: "env \<Rightarrow> sid \<Rightarrow> server \<Rightarrow> bool \<times> server" where
  "destroySession e sessionId st =
     (case map_of (sessions st) sessionId of
        None \<Rightarrow> (False, st)
      | Some s \<Rightarrow>
          (True, st\<lparr>sessions := AList.delete sessionId (sessions st),
                    trace := trace st @ close_pages e (pages s)
                               @ [close_browser e sessionId (browser s)]
                               @ [Deleted sessionId]\<rparr>))"

text \<open>
  \<^verbatim>\<open>cleanupExpiredSessions\<close>: a first loop over the entries collects the ids whose idle
  time exceeds the timeout; a second loop destroys them. The second loop logs
  \<^verbatim>\<open>sessions.get(sessionId).lastAccessed\<close> before each destroy, which throws when the id
  is no longer in the map.
\<close>

definition expiredSessions :: "config \<Rightarrow> int \<Rightarrow> (sid \<times> session) list \<Rightarrow> sid list" where
  "expiredSessions cfg now reg =
     map fst (filter (\<lambda>(sessionId, s). now - lastAccessed s > SESSION_TIMEOUT_MS cfg) reg)"

fun expire_loop :: "env \<Rightarrow> sid list \<Rightarrow> server \<Rightarrow> error option \<times> server" where
  "expire_loop e [] st = (None, st)"
| "expire_loop e (sessionId # rest) st =
     (case map_of (sessions st) sessionId of
        None \<Rightarrow> (Some UndefinedRead, st)
      | Some s \<Rightarrow> expire_loop e rest (snd (destroySession e sessionId st)))"

definition cleanupExpiredSessions ::
  "config \<Rightarrow> env \<Rightarrow> int \<Rightarrow> server \<Rightarrow> (error + nat) \<times> server" where
  "cleanupExpiredSessions cfg e now st =
     (let expired = expiredSessions cfg now (sessions st) in
      case expire_loop e expired st of
        (Some err, st') \<Rightarrow> (Inl err, st')
      | (None, st') \<Rightarrow> (Inr (length expired), st'))"

text \<open>
  \<^verbatim>\<open>createSession\<close>: at or above the limit it sweeps and checks again; then it launches
  a browser (which may reject) and stores the new session under \<^verbatim>\<open>ses_<uuid>\<close>.
  \<open>t_sweep\<close> is the clock read by the sweep, \<open>t_create\<close> the one stored in the session;
  a falsy \<^verbatim>\<open>metadata\<close> argument (\<open>None\<close>) becomes the empty object.
\<close>

definition check_limit :: "config \<Rightarrow> env \<Rightarrow> int \<Rightarrow> server \<Rightarrow> error option \<times> server" where
  "check_limit cfg e t_sweep st =
     (if length (sessions st) \<ge> MAX_SESSIONS cfg then
        (case cleanupExpiredSessions cfg e t_sweep st of
           (Inl err, st') \<Rightarrow> (Some err, st')
         | (Inr n, st') \<Rightarrow>
             if length (sessions st') \<ge> MAX_SESSIONS cfg
             then (Some (SessionLimit (MAX_SESSIONS cfg)), st')
             else (None, st'))
      else (None, st))"

definition createSession ::
  "config \<Rightarrow> env \<Rightarrow> metadata option \<Rightarrow> int \<Rightarrow> string \<Rightarrow> browser outcome \<Rightarrow> int \<Rightarrow> server
     \<Rightarrow> (error + session) \<times> server" where
  "createSession cfg e md t_sweep uuid launch t_create st =
     (case check_limit cfg e t_sweep st of
        (Some err, st') \<Rightarrow> (Inl err, st')
      | (None, st') \<Rightarrow>
          (case launch of
             Inl m \<Rightarrow> (Inl (Rejected m), st')
           | Inr b \<Rightarrow>
               let sessionId = ''ses_'' @ uuid;
                   sessionData = \<lparr>id' = sessionId, browser = b, pages = [],
                                  lastAccessed = t_create, currentUrl = None,
                                  metadata = (case md of None \<Rightarrow> [] | Some m \<Rightarrow> m)\<rparr>
               in (Inr sessionData,
                   st'\<lparr>sessions := AList.update sessionId sessionData (sessions st')\<rparr>)))"

text \<open>
  \<^verbatim>\<open>getSession\<close> throws for an absent id and otherwise stamps \<^verbatim>\<open>lastAccessed\<close>. The
  session object it returns is the one in the map, so the stamp is a change of the
  registry entry.
\<close>

definition getSession :: "sid \<Rightarrow> int \<Rightarrow> server \<Rightarrow> (error + session) \<times> server" where
  "getSession sessionId now st =
     (case map_of (sessions st) sessionId of
        None \<Rightarrow> (Inl (SessionNotFound sessionId), st)
      | Some s \<Rightarrow>
          (Inr (s\<lparr>lastAccessed := now\<rparr>),
           st\<lparr>sessions := AList.map_entry sessionId (\<lambda>s. s\<lparr>lastAccessed := now\<rparr>) (sessions st)\<rparr>))"

text \<open>
  \<^verbatim>\<open>getCurrentPage\<close>: with no pages it opens one (which may reject) and pushes it;
  otherwise it returns the last page. The mutated session is returned beside the page.
\<close>

definition getCurrentPage :: "page outcome \<Rightarrow> session \<Rightarrow> error + (page \<times> session)" where
  "getCurrentPage newPage s =
     (if length (pages s) = 0 then
        (case newPage of
           Inl m \<Rightarrow> Inl (Rejected m)
         | Inr p \<Rightarrow> Inr (p, s\<lparr>pages := pages s @ [p]\<rparr>))
      else Inr (last (pages s), s))"

text \<open>
  The session object a route holds is the one found under \<open>sessionId\<close> in the map;
  after the route has mutated it, the entry under that id holds the mutated object.
\<close>

definition store :: "sid \<Rightarrow> session \<Rightarrow> server \<Rightarrow> server" where
  "store sessionId s st =
     st\<lparr>sessions := AList.map_entry sessionId (\<lambda>_. s) (sessions st)\<rparr>"

section \<open>Routes of the browser server\<close>

text \<open>
  What the outside world answers while one request is served: the clock reads, the
  fresh UUID, and the result of each puppeteer or sharp call the route awaits.
\<close>

record answers =
  Date_now_sweep :: int
  Date_now :: int
  Date_now_reply :: int
  Date_now_row :: "nat \<Rightarrow> int"
  randomUUID :: string
  puppeteer_launch :: "browser outcome"
  browser_newPage :: "page outcome"
  page_setViewport :: "string option"
  page_goto :: "string option"
  page_click :: "string option"
  page_waitForSelector :: "string option"
  page_screenshot :: "string outcome"
  page_evaluate :: "string outcome"
  page_content :: "string outcome"
  page_title :: "string outcome"
  page_url :: string
  process_uptime :: real

datatype session_info =
  SessionInfo (info_id: sid) (pagesCount: nat) (info_currentUrl: "string option")
    (info_lastAccessed: int) (idleTime: int) (info_metadata: metadata)

datatype body =
    HealthOk string nat nat real
  | CreateOk sid metadata
  | InfoOk session_info
  | NavigateOk string string
  | ClickOk string string
  | ScreenshotOk string string string
  | EvaluateOk string
  | ContentOk string string string nat
  | DeleteOk bool
  | ListOk "session_info list" nat
  | Failure string

type_synonym response = "nat \<times> body"

datatype request =
    GET_health
  | POST_session_create "metadata option"
  | GET_session_info sid
  | POST_session_navigate sid string
  | POST_session_click sid string bool
  | POST_session_screenshot sid "string option"
  | POST_session_evaluate sid string
  | GET_session_content sid
  | DELETE_session sid
  | GET_sessions

definition health :: "config \<Rightarrow> answers \<Rightarrow> server \<Rightarrow> response \<times> server" where
  "health cfg a st =
     ((200, HealthOk ''ok'' (length (sessions st)) (MAX_SESSIONS cfg) (process_uptime a)), st)"

definition session_create ::
  "config \<Rightarrow> env \<Rightarrow> metadata option \<Rightarrow> answers \<Rightarrow> server \<Rightarrow> response \<times> server" where
  "session_create cfg e md a st =
     (case createSession cfg e md (Date_now_sweep a) (randomUUID a) (puppeteer_launch a)
             (Date_now a) st of
        (Inl err, st') \<Rightarrow> ((500, Failure (message err)), st')
      | (Inr s, st') \<Rightarrow> ((200, CreateOk (id' s) (metadata s)), st'))"

definition info_of :: "int \<Rightarrow> session \<Rightarrow> session_info" where
  "info_of now s =
     SessionInfo (id' s) (length (pages s)) (currentUrl s) (lastAccessed s)
       (now - lastAccessed s) (metadata s)"

definition session_info :: "sid \<Rightarrow> answers \<Rightarrow> server \<Rightarrow> response \<times> server" where
  "session_info sessionId a st =
     (case getSession sessionId (Date_now a) st of
        (Inl err, st') \<Rightarrow> ((404, Failure (message err)), st')
      | (Inr s, st') \<Rightarrow> ((200, InfoOk (info_of (Date_now_reply a) s)), st'))"

text \<open>
  The page routes share one shape: \<^verbatim>\<open>getSession\<close>, \<^verbatim>\<open>getCurrentPage\<close>, the awaited
  page calls in the order of the source, the reply. Any throw lands in the route's
  catch, which replies 500 with the message; what was mutated before the throw stays.
  In the screenshot route \<open>page_screenshot\<close> stands for the capture followed by the
  resize and JPEG encoding of sharp, whose result is the base64 text; width, height
  and delay do not touch the registry and are left out. In the click route
  \<open>page_click\<close> is how the awaited expression settles: \<^verbatim>\<open>page.click(selector)\<close>, or with
  \<^verbatim>\<open>waitForNavigation\<close> the \<^verbatim>\<open>Promise.all\<close> of \<^verbatim>\<open>page.waitForNavigation\<close> and the click,
  which rejects when either does.
\<close>

definition session_navigate :: "sid \<Rightarrow> string \<Rightarrow> answers \<Rightarrow> server \<Rightarrow> response \<times> server" where
  "session_navigate sessionId url a st =
     (case getSession sessionId (Date_now a) st of
        (Inl err, st1) \<Rightarrow> ((500, Failure (message err)), st1)
      | (Inr s, st1) \<Rightarrow>
     (case getCurrentPage (browser_newPage a) s of
        Inl err \<Rightarrow> ((500, Failure (message err)), st1)
      | Inr (p, s1) \<Rightarrow>
     (let st2 = store sessionId s1 st1 in
      case page_setViewport a of
        Some m \<Rightarrow> ((500, Failure m), st2)
      | None \<Rightarrow>
     (case page_goto a of
        Some m \<Rightarrow> ((500, Failure m), st2)
      | None \<Rightarrow>
     (let st3 = store sessionId (s1\<lparr>currentUrl := Some url\<rparr>) st2 in
      case page_title a of
        Inl m \<Rightarrow> ((500, Failure m), st3)
      | Inr t \<Rightarrow> ((200, NavigateOk t (page_url a)), st3))))))"

definition session_click ::
  "sid \<Rightarrow> string \<Rightarrow> bool \<Rightarrow> answers \<Rightarrow> server \<Rightarrow> response \<times> server" where
  "session_click sessionId selector waitForNavigation a st =
     (case getSession sessionId (Date_now a) st of
        (Inl err, st1) \<Rightarrow> ((500, Failure (message err)), st1)
      | (Inr s, st1) \<Rightarrow>
     (case getCurrentPage (browser_newPage a) s of
        Inl err \<Rightarrow> ((500, Failure (message err)), st1)
      | Inr (p, s1) \<Rightarrow>
     (let st2 = store sessionId s1 st1 in
      case page_click a of
        Some m \<Rightarrow> ((500, Failure m), st2)
      | None \<Rightarrow>
     (case page_title a of
        Inl m \<Rightarrow> ((500, Failure m), st2)
      | Inr t \<Rightarrow>
          ((200, ClickOk (page_url a) t),
           store sessionId (s1\<lparr>currentUrl := Some (page_url a)\<rparr>) st2)))))"

definition session_screenshot ::
  "sid \<Rightarrow> string option \<Rightarrow> answers \<Rightarrow> server \<Rightarrow> response \<times> server" where
  "session_screenshot sessionId waitForSelector a st =
     (case getSession sessionId (Date_now a) st of
        (Inl err, st1) \<Rightarrow> ((500, Failure (message err)), st1)
      | (Inr s, st1) \<Rightarrow>
     (case getCurrentPage (browser_newPage a) s of
        Inl err \<Rightarrow> ((500, Failure (message err)), st1)
      | Inr (p, s1) \<Rightarrow>
     (let st2 = store sessionId s1 st1 in
      case page_setViewport a of
        Some m \<Rightarrow> ((500, Failure m), st2)
      | None \<Rightarrow>
     (case (if waitForSelector = None \<or> waitForSelector = Some [] then None
            else page_waitForSelector a) of
        Some m \<Rightarrow> ((500, Failure m), st2)
      | None \<Rightarrow>
     (case page_screenshot a of
        Inl m \<Rightarrow> ((500, Failure m), st2)
      | Inr shot \<Rightarrow>
     (case page_title a of
        Inl m \<Rightarrow> ((500, Failure m), st2)
      | Inr t \<Rightarrow> ((200, ScreenshotOk shot (page_url a) t), st2)))))))"

definition session_evaluate :: "sid \<Rightarrow> string \<Rightarrow> answers \<Rightarrow> server \<Rightarrow> response \<times> server" where
  "session_evaluate sessionId script a st =
     (case getSession sessionId (Date_now a) st of
        (Inl err, st1) \<Rightarrow> ((500, Failure (message err)), st1)
      | (Inr s, st1) \<Rightarrow>
     (case getCurrentPage (browser_newPage a) s of
        Inl err \<Rightarrow> ((500, Failure (message err)), st1)
      | Inr (p, s1) \<Rightarrow>
     (let st2 = store sessionId s1 st1 in
      case page_evaluate a of
        Inl m \<Rightarrow> ((500, Failure m), st2)
      | Inr r \<Rightarrow> ((200, EvaluateOk r), st2))))"

definition session_content :: "sid \<Rightarrow> answers \<Rightarrow> server \<Rightarrow> response \<times> server" where
  "session_content sessionId a st =
     (case getSession sessionId (Date_now a) st of
        (Inl err, st1) \<Rightarrow> ((500, Failure (message err)), st1)
      | (Inr s, st1) \<Rightarrow>
     (case getCurrentPage (browser_newPage a) s of
        Inl err \<Rightarrow> ((500, Failure (message err)), st1)
      | Inr (p, s1) \<Rightarrow>
     (let st2 = store sessionId s1 st1 in
      case page_content a of
        Inl m \<Rightarrow> ((500, Failure m), st2)
      | Inr c \<Rightarrow>
     (case page_title a of
        Inl m \<Rightarrow> ((500, Failure m), st2)
      | Inr t \<Rightarrow> ((200, ContentOk t (page_url a) (take 10000 c) (length c)), st2)))))"

definition session_delete :: "env \<Rightarrow> sid \<Rightarrow> server \<Rightarrow> response \<times> server" where
  "session_delete e sessionId st =
     (case destroySession e sessionId st of (destroyed, st') \<Rightarrow> ((200, DeleteOk destroyed), st'))"

definition list_sessions :: "answers \<Rightarrow> server \<Rightarrow> response \<times> server" where
  "list_sessions a st =
     (let sessionList =
            map (\<lambda>(i, s). info_of (Date_now_row a i) s)
              (zip [0 ..< length (sessions st)] (map snd (sessions st)))
      in ((200, ListOk sessionList (length sessionList)), st))"

fun serve :: "config \<Rightarrow> env \<Rightarrow> request \<Rightarrow> answers \<Rightarrow> server \<Rightarrow> response \<times> server" where
  "serve cfg e GET_health a st = health cfg a st"
| "serve cfg e (POST_session_create md) a st = session_create cfg e md a st"
| "serve cfg e (GET_session_info k) a st = session_info k a st"
| "serve cfg e (POST_session_navigate k url) a st = session_navigate k url a st"
| "serve cfg e (POST_session_click k sel w) a st = session_click k sel w a st"
| "serve cfg e (POST_session_screenshot k w) a st = session_screenshot k w a st"
| "serve cfg e (POST_session_evaluate k script) a st = session_evaluate k script a st"
| "serve cfg e (GET_session_content k) a st = session_content k a st"
| "serve cfg e (DELETE_session k) a st = session_delete e k st"
| "serve cfg e GET_sessions a st = list_sessions a st"

text \<open>
  The server's life is a sequence of inputs: a request together with the answers the
  world gives while it is served, or a tick of the cleanup interval at a clock value.
\<close>

datatype input = Http request answers | Tick int

fun step :: "config \<Rightarrow> env \<Rightarrow> input \<Rightarrow> server \<Rightarrow> server" where
  "step cfg e (Http r a) st = snd (serve cfg e r a st)"
| "step cfg e (Tick now) st = snd (cleanupExpiredSessions cfg e now st)"

fun run :: "config \<Rightarrow> env \<Rightarrow> input list \<Rightarrow> server \<Rightarrow> server" where
  "run cfg e [] st = st"
| "run cfg e (i # is) st = run cfg e is (step cfg e i st)"

text \<open>The ids whose map entries a trace removes, in the order of removal.\<close>

fun deleted_ids :: "event list \<Rightarrow> sid list" where
  "deleted_ids [] = []"
| "deleted_ids (Deleted k # evs) = k # deleted_ids evs"
| "deleted_ids (ev # evs) = deleted_ids evs"

section \<open>The tool handlers of the MCP server (index.js)\<close>

text \<open>
  \<^verbatim>\<open>browserServerRequest\<close> runs curl through \<^verbatim>\<open>execSync\<close> and parses the output as
  JSON. It returns the parsed body, whatever its \<^verbatim>\<open>success\<close> field says, and it throws
  \<^verbatim>\<open>Browser server request failed: ...\<close> when \<^verbatim>\<open>execSync\<close> or \<^verbatim>\<open>JSON.parse\<close> throws.
  A throw may happen before the request reached the server (\<open>Unsent\<close>) or after the
  server has served it (\<open>Lost\<close>).
\<close>

datatype transport = Delivered | Unsent string | Lost string

type_synonym wire = "transport \<times> answers"

definition browserServerRequest ::
  "config \<Rightarrow> env \<Rightarrow> wire \<Rightarrow> request \<Rightarrow> server \<Rightarrow> (string + body) \<times> server" where
  "browserServerRequest cfg e w r st =
     (case fst w of
        Delivered \<Rightarrow> (case serve cfg e r (snd w) st of ((status, b), st') \<Rightarrow> (Inr b, st'))
      | Unsent m \<Rightarrow> (Inl (''Browser server request failed: '' @ m), st)
      | Lost m \<Rightarrow>
          (Inl (''Browser server request failed: '' @ m), snd (serve cfg e r (snd w) st)))"

text \<open>
  \<^verbatim>\<open>createResp.sessionId\<close> inside a template string: a body without that field gives
  the text \<^verbatim>\<open>undefined\<close>.
\<close>

fun sessionId_of :: "body \<Rightarrow> sid" where
  "sessionId_of (CreateOk k md) = k"
| "sessionId_of b = ''undefined''"

text \<open>
  A tool call returns the text rendered from the bodies it received, or, from the
  catch around the whole switch, \<^verbatim>\<open>Error: <message>\<close> with \<^verbatim>\<open>isError\<close>. The url
  argument is the one left by \<^verbatim>\<open>maybeConvertToFileUrl\<close>, which runs before the switch
  and does not talk to the browser server. A session id supplied by the caller stands
  for the id the server reads from the path of the request.
\<close>

datatype tool_result = ToolText "body list" | ToolError string

definition tempSession_of :: "sid option \<Rightarrow> bool" where
  "tempSession_of sessionId = (case sessionId of None \<Rightarrow> True | Some k \<Rightarrow> k = [])"

definition temporary :: "metadata option" where
  "temporary = Some [(''temporary'', ''true'')]"

text \<open>
  \<^verbatim>\<open>puppeteer_navigate\<close>: without a session id it creates a session, then navigates, reads
  the content, and closes the session it created. Each of the up to four requests has
  its own wire.
\<close>

definition puppeteer_navigate ::
  "config \<Rightarrow> env \<Rightarrow> sid option \<Rightarrow> string \<Rightarrow> wire \<Rightarrow> wire \<Rightarrow> wire \<Rightarrow> wire \<Rightarrow> server
     \<Rightarrow> tool_result \<times> server" where
  "puppeteer_navigate cfg e sessionId url w_create w_navigate w_content w_delete st =
     (let tempSession = tempSession_of sessionId in
      case (if tempSession
            then (case browserServerRequest cfg e w_create (POST_session_create temporary) st of
                    (Inl m, st1) \<Rightarrow> (Inl m, st1)
                  | (Inr createResp, st1) \<Rightarrow> (Inr (sessionId_of createResp), st1))
            else (Inr (case sessionId of Some k \<Rightarrow> k | None \<Rightarrow> []), st)) of
        (Inl m, st1) \<Rightarrow> (ToolError (''Error: '' @ m), st1)
      | (Inr activeSessionId, st1) \<Rightarrow>
     (case browserServerRequest cfg e w_navigate
             (POST_session_navigate activeSessionId url) st1 of
        (Inl m, st2) \<Rightarrow> (ToolError (''Error: '' @ m), st2)
      | (Inr response, st2) \<Rightarrow>
     (case browserServerRequest cfg e w_content (GET_session_content activeSessionId) st2 of
        (Inl m, st3) \<Rightarrow> (ToolError (''Error: '' @ m), st3)
      | (Inr contentResp, st3) \<Rightarrow>
     (if tempSession
      then (case browserServerRequest cfg e w_delete (DELETE_session activeSessionId) st3 of
              (Inl m, st4) \<Rightarrow> (ToolError (''Error: '' @ m), st4)
            | (Inr closeResp, st4) \<Rightarrow> (ToolText [response, contentResp], st4))
      else (ToolText [response, contentResp], st3)))))"

text \<open>
  \<^verbatim>\<open>puppeteer_screenshot\<close>: without a session id it needs a url (a missing or empty one
  throws before anything is created), creates a session and navigates; then it takes
  the screenshot and closes the session it created.
\<close>

definition puppeteer_screenshot ::
  "config \<Rightarrow> env \<Rightarrow> sid option \<Rightarrow> string option \<Rightarrow> string option
     \<Rightarrow> wire \<Rightarrow> wire \<Rightarrow> wire \<Rightarrow> wire \<Rightarrow> server \<Rightarrow> tool_result \<times> server" where
  "puppeteer_screenshot cfg e sessionId url waitForSelector
       w_create w_navigate w_screenshot w_delete st =
     (let tempSession = tempSession_of sessionId in
      case (if tempSession
            then (case url of
                    None \<Rightarrow> (Inl ''url is required when sessionId is not provided'', st)
                  | Some u \<Rightarrow>
                 (if u = [] then (Inl ''url is required when sessionId is not provided'', st)
                  else
                 (case browserServerRequest cfg e w_create
                         (POST_session_create temporary) st of
                    (Inl m, st1) \<Rightarrow> (Inl m, st1)
                  | (Inr createResp, st1) \<Rightarrow>
                 (case browserServerRequest cfg e w_navigate
                         (POST_session_navigate (sessionId_of createResp) u) st1 of
                    (Inl m, st2) \<Rightarrow> (Inl m, st2)
                  | (Inr navResp, st2) \<Rightarrow> (Inr (sessionId_of createResp), st2)))))
            else (Inr (case sessionId of Some k \<Rightarrow> k | None \<Rightarrow> []), st)) of
        (Inl m, st2) \<Rightarrow> (ToolError (''Error: '' @ m), st2)
      | (Inr activeSessionId, st2) \<Rightarrow>
     (case browserServerRequest cfg e w_screenshot
             (POST_session_screenshot activeSessionId waitForSelector) st2 of
        (Inl m, st3) \<Rightarrow> (ToolError (''Error: '' @ m), st3)
      | (Inr response, st3) \<Rightarrow>
     (if tempSession
      then (case browserServerRequest cfg e w_delete (DELETE_session activeSessionId) st3 of
              (Inl m, st4) \<Rightarrow> (ToolError (''Error: '' @ m), st4)
            | (Inr closeResp, st4) \<Rightarrow> (ToolText [response], st4))
      else (ToolText [response], st3))))"

section \<open>Handlers that overlap\<close>

text \<open>
  The handlers are async functions on one event loop. A handler runs until an \<^verbatim>\<open>await\<close>
  has to wait; until the awaited call settles, other handlers and the cleanup interval
  run. Two waits stand between a test of the registry and the write that relies on it:
  \<^item> \<^verbatim>\<open>createSession\<close> tests \<^verbatim>\<open>sessions.size\<close>, awaits \<^verbatim>\<open>puppeteer.launch()\<close>, then calls
    \<^verbatim>\<open>sessions.set\<close>;
  \<^item> \<^verbatim>\<open>getCurrentPage\<close> tests \<^verbatim>\<open>session.pages.length\<close>, awaits \<^verbatim>\<open>session.browser.newPage()\<close>,
    then calls \<^verbatim>\<open>pages.push\<close>.

  The machine keeps, beside the server, the calls suspended at these two waits: for a
  create the id and the metadata it holds, for a page route the id of the session it
  holds. A step is a whole handler or tick with nothing in between, or a part of a
  create or of a page route: the part up to the wait (for a page route \<^verbatim>\<open>getSession\<close> and
  the length test), the part after it, or the write of \<^verbatim>\<open>currentUrl\<close> that navigate and
  click make after their later waits. A part after a wait does nothing when no such
  call is suspended.

  The other waits of the server (the page calls of the routes, closing pages and the
  browser) are followed by no write to the registry but that of \<^verbatim>\<open>currentUrl\<close> and
  \<^verbatim>\<open>sessions.delete\<close>, so an overlapped destroy or sweep changes the registry as whole
  DELETE steps at the moments of its deletes do. A suspended page route holds the
  session object; the machine finds it by its id, the same object as long as ids are
  not used twice.
\<close>

record machine =
  srv :: server
  awaiting_launch :: "(sid \<times> metadata option) list"
  awaiting_page :: "sid list"

definition start :: machine where
  "start = \<lparr>srv = init, awaiting_launch = [], awaiting_page = []\<rparr>"

definition createSession_until_launch ::
  "config \<Rightarrow> env \<Rightarrow> metadata option \<Rightarrow> int \<Rightarrow> string \<Rightarrow> machine \<Rightarrow> machine" where
  "createSession_until_launch cfg e md t_sweep uuid m =
     (case check_limit cfg e t_sweep (srv m) of
        (Some err, st') \<Rightarrow> m\<lparr>srv := st'\<rparr>
      | (None, st') \<Rightarrow> m\<lparr>srv := st', awaiting_launch := awaiting_launch m @ [(''ses_'' @ uuid, md)]\<rparr>)"

definition createSession_after_launch ::
  "sid \<Rightarrow> browser outcome \<Rightarrow> int \<Rightarrow> machine \<Rightarrow> machine" where
  "createSession_after_launch sessionId launch t_create m =
     (case map_of (awaiting_launch m) sessionId of
        None \<Rightarrow> m
      | Some md \<Rightarrow>
          (case launch of
             Inl msg \<Rightarrow> m\<lparr>awaiting_launch := AList.delete_aux sessionId (awaiting_launch m)\<rparr>
           | Inr b \<Rightarrow>
               let sessionData = \<lparr>id' = sessionId, browser = b, pages = [],
                                  lastAccessed = t_create, currentUrl = None,
                                  metadata = (case md of None \<Rightarrow> [] | Some x \<Rightarrow> x)\<rparr>
               in m\<lparr>srv := (srv m)\<lparr>sessions :=
                                      AList.update sessionId sessionData (sessions (srv m))\<rparr>,
                     awaiting_launch := AList.delete_aux sessionId (awaiting_launch m)\<rparr>))"

definition page_route_until_newPage :: "sid \<Rightarrow> int \<Rightarrow> machine \<Rightarrow> machine" where
  "page_route_until_newPage sessionId now m =
     (case getSession sessionId now (srv m) of
        (Inl err, st') \<Rightarrow> m\<lparr>srv := st'\<rparr>
      | (Inr s, st') \<Rightarrow>
          if length (pages s) = 0
          then m\<lparr>srv := st', awaiting_page := awaiting_page m @ [sessionId]\<rparr>
          else m\<lparr>srv := st'\<rparr>)"

definition page_route_after_newPage :: "sid \<Rightarrow> page outcome \<Rightarrow> machine \<Rightarrow> machine" where
  "page_route_after_newPage sessionId newPage m =
     (if sessionId \<in> set (awaiting_page m) then
        (case newPage of
           Inl msg \<Rightarrow> m\<lparr>awaiting_page := remove1 sessionId (awaiting_page m)\<rparr>
         | Inr p \<Rightarrow>
             m\<lparr>srv := (srv m)\<lparr>sessions :=
                    AList.map_entry sessionId (\<lambda>s. s\<lparr>pages := pages s @ [p]\<rparr>)
                      (sessions (srv m))\<rparr>,
               awaiting_page := remove1 sessionId (awaiting_page m)\<rparr>)
      else m)"

definition write_currentUrl :: "sid \<Rightarrow> string \<Rightarrow> machine \<Rightarrow> machine" where
  "write_currentUrl sessionId url m =
     m\<lparr>srv := (srv m)\<lparr>sessions :=
            AList.map_entry sessionId (\<lambda>s. s\<lparr>currentUrl := Some url\<rparr>) (sessions (srv m))\<rparr>\<rparr>"

datatype action =
    Whole input
  | Create_check "metadata option" int string
  | Create_resume sid "browser outcome" int
  | Page_check sid int
  | Page_resume sid "page outcome"
  | Url_write sid string

fun act :: "config \<Rightarrow> env \<Rightarrow> action \<Rightarrow> machine \<Rightarrow> machine" where
  "act cfg e (Whole i) m = m\<lparr>srv := step cfg e i (srv m)\<rparr>"
| "act cfg e (Create_check md t_sweep uuid) m = createSession_until_launch cfg e md t_sweep uuid m"
| "act cfg e (Create_resume k launch t_create) m = createSession_after_launch k launch t_create m"
| "act cfg e (Page_check k now) m = page_route_until_newPage k now m"
| "act cfg e (Page_resume k newPage) m = page_route_after_newPage k newPage m"
| "act cfg e (Url_write k url) m = write_currentUrl k url m"

fun interleave :: "config \<Rightarrow> env \<Rightarrow> action list \<Rightarrow> machine \<Rightarrow> machine" where
  "interleave cfg e [] m = m"
| "interleave cfg e (a # as) m = interleave cfg e as (act cfg e a m)"

fun page_session :: "request \<Rightarrow> sid option" where
  "page_session (POST_session_navigate k url) = Some k"
| "page_session (POST_session_click k sel w) = Some k"
| "page_session (POST_session_screenshot k w) = Some k"
| "page_session (POST_session_evaluate k script) = Some k"
| "page_session (GET_session_content k) = Some k"
| "page_session r = None"


fun tests_pages :: "action \<Rightarrow> sid option" where
  "tests_pages (Page_check k now) = Some k"
| "tests_pages (Whole (Http r a)) = page_session r"
| "tests_pages a = None"


fun one_request_per_session :: "config \<Rightarrow> env \<Rightarrow> action list \<Rightarrow> machine \<Rightarrow> bool" where
  "one_request_per_session cfg e [] m = True"
| "one_request_per_session cfg e (a # as) m =
     ((case tests_pages a of None \<Rightarrow> True | Some k \<Rightarrow> k \<notin> set (awaiting_page m))
      \<and> one_request_per_session cfg e as (act cfg e a m))"

section \<open>Example environments and states\<close>

definition quiet :: env where
  "quiet = \<lparr>page_close = (\<lambda>p. None), browser_close = (\<lambda>b. None)\<rparr>"

definition failing :: env where
  "failing = \<lparr>page_close = (\<lambda>p. if p = 1 then Some ''Target closed'' else None),
               browser_close = (\<lambda>b. Some ''Protocol error'')\<rparr>"

definition session_at :: "sid \<Rightarrow> browser \<Rightarrow> page list \<Rightarrow> int \<Rightarrow> session" where
  "session_at k b ps t =
     \<lparr>id' = k, browser = b, pages = ps, lastAccessed = t, currentUrl = None, metadata = []\<rparr>"

definition three_sessions :: server where
  "three_sessions =
     \<lparr>sessions = [(''ses_below'', session_at ''ses_below'' 1 [] 700001),
                  (''ses_at'', session_at ''ses_at'' 2 [] 700000),
                  (''ses_above'', session_at ''ses_above'' 3 [] 699999)],
      trace = []\<rparr>"

definition one_session :: server where
  "one_session = \<lparr>sessions = [(''ses_a'', session_at ''ses_a'' 7 [1, 2] 0)], trace = []\<rparr>"

definition answers_ok :: "string \<Rightarrow> int \<Rightarrow> answers" where
  "answers_ok u t =
     \<lparr>Date_now_sweep = t, Date_now = t, Date_now_reply = t, Date_now_row = (\<lambda>i. t),
      randomUUID = u, puppeteer_launch = Inr 1, browser_newPage = Inr 1,
      page_setViewport = None, page_goto = None, page_click = None,
      page_waitForSelector = None, page_screenshot = Inr ''/9j/4AAQ'',
      page_evaluate = Inr ''null'', page_content = Inr ''<html></html>'',
      page_title = Inr ''Example Domain'', page_url = ''https://example.com/'',
      process_uptime = 1\<rparr>"

definition five_sessions :: "int \<Rightarrow> server" where
  "five_sessions t =
     \<lparr>sessions = [(''ses_1'', session_at ''ses_1'' 1 [] t),
                  (''ses_2'', session_at ''ses_2'' 2 [] 900000),
                  (''ses_3'', session_at ''ses_3'' 3 [] 900000),
                  (''ses_4'', session_at ''ses_4'' 4 [] 900000),
                  (''ses_5'', session_at ''ses_5'' 5 [] 900000)],
      trace = []\<rparr>"

definition six_creates :: "input list" where
  "six_creates =
     map (\<lambda>u. Http (POST_session_create None) (answers_ok u 1000))
       [''a'', ''b'', ''c'', ''d'', ''e'', ''f'']"

definition one_visited :: server where
  "one_visited =
     \<lparr>sessions = [(''ses_a'', (session_at ''ses_a'' 7 [1] 0)\<lparr>currentUrl := Some ''https://example.com''\<rparr>),
                  (''ses_b'', session_at ''ses_b'' 8 [] 5)],
      trace = []\<rparr>"

definition goto_fails :: answers where
  "goto_fails = (answers_ok ''u'' 20)\<lparr>page_goto := Some ''net::ERR_NAME_NOT_RESOLVED''\<rparr>"

definition shot_fails :: answers where
  "shot_fails = (answers_ok ''u'' 30)\<lparr>page_screenshot := Inl ''Protocol error (Page.captureScreenshot)''\<rparr>"


definition two_overlapping_requests :: "action list" where
  "two_overlapping_requests =
     [Whole (Http (POST_session_create None) (answers_ok ''a'' 10)),
      Page_check ''ses_a'' 20, Page_check ''ses_a'' 21,
      Page_resume ''ses_a'' (Inr 1), Page_resume ''ses_a'' (Inr 2)]"


definition two_sessions_interleaved :: "action list" where
  "two_sessions_interleaved =
     [Whole (Http (POST_session_create None) (answers_ok ''a'' 10)),
      Whole (Http (POST_session_create None) (answers_ok ''b'' 11)),
      Page_check ''ses_a'' 20, Page_check ''ses_b'' 21,
      Page_resume ''ses_b'' (Inr 2), Page_resume ''ses_a'' (Inr 1),
      Url_write ''ses_a'' ''https://example.com'',
      Page_check ''ses_a'' 30,
      Whole (Http (POST_session_screenshot ''ses_b'' None) (answers_ok ''u'' 31))]"



section \<open>Properties of the registry\<close>

subsection \<open>Teardown and sweep\<close>

lemma keys_delete: "fst ` set (AList.delete k al) = fst ` set al - {k}"
  by (induction al) auto

lemma length_update_le: "length (AList.update k v al) \<le> Suc (length al)"
  by (induction al) auto

lemma length_map_entry: "length (AList.map_entry k f al) = length al"
  by (induction al) auto

lemma map_of_absent_delete: "map_of al k = None \<Longrightarrow> AList.delete k al = al"
  by (simp add: map_of_eq_None_iff)

lemma destroySession_sessions:
  "sessions (snd (destroySession e k st)) = AList.delete k (sessions st)"
  by (simp add: destroySession_def map_of_absent_delete split: option.splits)

lemma destroySession_absent: "map_of (sessions st) k = None \<Longrightarrow> destroySession e k st = (False, st)"
  by (simp add: destroySession_def)

lemma destroySession_live_fst: "map_of (sessions st) k = Some s \<Longrightarrow> fst (destroySession e k st) = True"
  by (simp add: destroySession_def)

lemma deleted_ids_append: "deleted_ids (xs @ ys) = deleted_ids xs @ deleted_ids ys"
  by (induction xs rule: deleted_ids.induct) auto

lemma deleted_ids_close_pages: "deleted_ids (close_pages e ps) = []"
  by (induction ps) (auto split: option.splits)

lemma deleted_ids_close_browser: "deleted_ids (close_browser e k b # evs) = deleted_ids evs"
  by (simp add: close_browser_def split: option.splits)

lemma destroySession_live_deleted:
  "map_of (sessions st) k = Some s \<Longrightarrow>
     deleted_ids (trace (snd (destroySession e k st))) = deleted_ids (trace st) @ [k]"
  by (simp add: destroySession_def deleted_ids_append deleted_ids_close_pages
      deleted_ids_close_browser)

lemma expire_loop_ok:
  "distinct (map fst (sessions st)) \<Longrightarrow> distinct ks \<Longrightarrow> set ks \<subseteq> fst ` set (sessions st) \<Longrightarrow>
     fst (expire_loop e ks st) = None \<and>
     sessions (snd (expire_loop e ks st)) = filter (\<lambda>p. fst p \<notin> set ks) (sessions st) \<and>
     deleted_ids (trace (snd (expire_loop e ks st))) = deleted_ids (trace st) @ ks"
proof (induction ks arbitrary: st)
  case Nil
  then show ?case by simp
next
  case (Cons k ks)
  from Cons.prems obtain s where s: "map_of (sessions st) k = Some s"
    by (metis list.set_intros(1) map_of_eq_None_iff not_Some_eq subsetD)
  let ?st = "snd (destroySession e k st)"
  have sess: "sessions ?st = AList.delete k (sessions st)" by (rule destroySession_sessions)
  have d: "distinct (map fst (sessions ?st))"
    using Cons.prems(1) by (simp add: sess distinct_delete)
  have sub: "set ks \<subseteq> fst ` set (sessions ?st)"
    using Cons.prems(2,3) by (auto simp: sess keys_delete)
  have dk: "distinct ks" using Cons.prems(2) by simp
  note IH = Cons.IH[OF d dk sub]
  have f: "filter (\<lambda>p. fst p \<notin> set ks) (AList.delete k (sessions st))
           = filter (\<lambda>p. fst p \<notin> set (k # ks)) (sessions st)"
    by (auto simp: AList.delete_eq intro: filter_cong)
  show ?case using IH s by (simp add: sess f destroySession_live_deleted[OF s])
qed

lemma expired_distinct:
  "distinct (map fst reg) \<Longrightarrow> distinct (expiredSessions cfg now reg)"
  by (simp add: expiredSessions_def distinct_map_filter)

lemma expired_subset: "set (expiredSessions cfg now reg) \<subseteq> fst ` set reg"
  by (auto simp: expiredSessions_def)

lemma expired_filter:
  assumes "distinct (map fst reg)"
  shows "filter (\<lambda>p. fst p \<notin> set (expiredSessions cfg now reg)) reg
         = filter (\<lambda>(k, s). \<not> now - lastAccessed s > SESSION_TIMEOUT_MS cfg) reg"
proof (rule filter_cong[OF refl])
  fix p assume p: "p \<in> set reg"
  obtain k s where ks: "p = (k, s)" by (cases p)
  have "k \<in> set (expiredSessions cfg now reg) \<longleftrightarrow> now - lastAccessed s > SESSION_TIMEOUT_MS cfg"
  proof
    assume "k \<in> set (expiredSessions cfg now reg)"
    then obtain s' where s': "(k, s') \<in> set reg" "now - lastAccessed s' > SESSION_TIMEOUT_MS cfg"
      by (auto simp: expiredSessions_def)
    with assms p ks have "s' = s" by (meson eq_key_imp_eq_value)
    with s' show "now - lastAccessed s > SESSION_TIMEOUT_MS cfg" by simp
  next
    assume "now - lastAccessed s > SESSION_TIMEOUT_MS cfg"
    with p ks show "k \<in> set (expiredSessions cfg now reg)"
      by (force simp: expiredSessions_def)
  qed
  then show "(fst p \<notin> set (expiredSessions cfg now reg))
             = (case p of (k, s) \<Rightarrow> \<not> now - lastAccessed s > SESSION_TIMEOUT_MS cfg)"
    by (simp add: ks)
qed

lemma cleanup_exact:
  assumes "distinct (map fst (sessions st))"
  shows "fst (cleanupExpiredSessions cfg e now st)
           = Inr (length (expiredSessions cfg now (sessions st)))"
    and "sessions (snd (cleanupExpiredSessions cfg e now st))
           = filter (\<lambda>(k, s). \<not> now - lastAccessed s > SESSION_TIMEOUT_MS cfg) (sessions st)"
    and "deleted_ids (trace (snd (cleanupExpiredSessions cfg e now st)))
           = deleted_ids (trace st) @ expiredSessions cfg now (sessions st)"
proof -
  let ?ks = "expiredSessions cfg now (sessions st)"
  have d1: "distinct ?ks" by (rule expired_distinct[OF assms])
  have sub: "set ?ks \<subseteq> fst ` set (sessions st)" by (rule expired_subset)
  note L = expire_loop_ok[OF assms d1 sub, of e]
  obtain r st' where r: "expire_loop e ?ks st = (r, st')" by (cases "expire_loop e ?ks st")
  with L have rn: "r = None" by simp
  have c: "cleanupExpiredSessions cfg e now st = (Inr (length ?ks), st')"
    by (simp add: cleanupExpiredSessions_def r rn)
  show "fst (cleanupExpiredSessions cfg e now st) = Inr (length ?ks)" by (simp add: c)
  show "sessions (snd (cleanupExpiredSessions cfg e now st))
           = filter (\<lambda>(k, s). \<not> now - lastAccessed s > SESSION_TIMEOUT_MS cfg) (sessions st)"
    using L r by (simp add: c expired_filter[OF assms])
  show "deleted_ids (trace (snd (cleanupExpiredSessions cfg e now st)))
           = deleted_ids (trace st) @ ?ks"
    using L r by (simp add: c)
qed

lemma map_of_delete_same: "map_of (AList.delete k al) k = None"
  by (simp add: delete_conv')

lemma close_pages_length: "length (close_pages e ps) = length ps"
  by (induction ps) auto

lemma close_pages_nth:
  "i < length ps \<Longrightarrow>
     close_pages e ps ! i = PageClosed (ps ! i) \<and> page_close e (ps ! i) = None \<or>
     (\<exists>m. page_close e (ps ! i) = Some m \<and> close_pages e ps ! i = PageCloseError (ps ! i) m)"
proof (induction ps arbitrary: i)
  case Nil
  then show ?case by simp
next
  case (Cons p ps)
  show ?case
  proof (cases i)
    case 0
    then show ?thesis by (cases "page_close e p") auto
  next
    case (Suc j)
    with Cons.prems have "j < length ps" by simp
    from Cons.IH[OF this] show ?thesis by (simp add: Suc)
  qed
qed

subsection \<open>Creation and the limit\<close>

lemma destroySession_length_le:
  "length (sessions (snd (destroySession e k st))) \<le> length (sessions st)"
  by (simp add: destroySession_sessions length_delete_le)

lemma expire_loop_length_le:
  "length (sessions (snd (expire_loop e ks st))) \<le> length (sessions st)"
proof (induction ks arbitrary: st)
  case Nil
  then show ?case by simp
next
  case (Cons k ks)
  show ?case
  proof (cases "map_of (sessions st) k")
    case None
    then show ?thesis by simp
  next
    case (Some s)
    have "length (sessions (snd (expire_loop e ks (snd (destroySession e k st)))))
            \<le> length (sessions (snd (destroySession e k st)))"
      by (rule Cons.IH)
    also have "\<dots> \<le> length (sessions st)" by (rule destroySession_length_le)
    finally show ?thesis using Some by simp
  qed
qed

lemma cleanup_snd:
  "snd (cleanupExpiredSessions cfg e now st)
     = snd (expire_loop e (expiredSessions cfg now (sessions st)) st)"
  by (simp add: cleanupExpiredSessions_def Let_def split: prod.splits option.splits)

lemma cleanup_length_le:
  "length (sessions (snd (cleanupExpiredSessions cfg e now st))) \<le> length (sessions st)"
  by (simp add: cleanup_snd expire_loop_length_le)

lemma check_limit_snd:
  "snd (check_limit cfg e t st)
     = (if MAX_SESSIONS cfg \<le> length (sessions st)
        then snd (cleanupExpiredSessions cfg e t st) else st)"
  by (simp add: check_limit_def split: prod.splits sum.splits)

lemma check_limit_length_le:
  "length (sessions (snd (check_limit cfg e t st))) \<le> length (sessions st)"
  by (simp add: check_limit_snd cleanup_length_le)

lemma check_limit_admits:
  "fst (check_limit cfg e t st) = None \<Longrightarrow>
     length (sessions (snd (check_limit cfg e t st))) < MAX_SESSIONS cfg"
  by (auto simp: check_limit_def split: prod.splits sum.splits if_splits)

lemma createSession_cases:
  "(\<exists>err. createSession cfg e md t u l tc st = (Inl err, snd (check_limit cfg e t st))
          \<and> (fst (check_limit cfg e t st) = Some err
              \<or> fst (check_limit cfg e t st) = None \<and> (\<exists>m. l = Inl m \<and> err = Rejected m)))
   \<or> (\<exists>b sd. l = Inr b \<and> fst (check_limit cfg e t st) = None
          \<and> sd = \<lparr>id' = ''ses_'' @ u, browser = b, pages = [], lastAccessed = tc,
                   currentUrl = None, metadata = (case md of None \<Rightarrow> [] | Some m \<Rightarrow> m)\<rparr>
          \<and> createSession cfg e md t u l tc st
              = (Inr sd, (snd (check_limit cfg e t st))
                   \<lparr>sessions := AList.update (''ses_'' @ u) sd
                                  (sessions (snd (check_limit cfg e t st)))\<rparr>))"
  by (cases "check_limit cfg e t st"; cases "fst (check_limit cfg e t st)"; cases l)
     (auto simp: createSession_def Let_def)

lemma createSession_bound:
  assumes "length (sessions st) \<le> MAX_SESSIONS cfg"
  shows "length (sessions (snd (createSession cfg e md t u l tc st))) \<le> MAX_SESSIONS cfg"
proof -
  let ?st1 = "snd (check_limit cfg e t st)"
  have le: "length (sessions ?st1) \<le> length (sessions st)" by (rule check_limit_length_le)
  from createSession_cases[of cfg e md t u l tc st]
  consider (fail) err where "createSession cfg e md t u l tc st = (Inl err, ?st1)"
    | (ok) sd where "fst (check_limit cfg e t st) = None"
        "createSession cfg e md t u l tc st
           = (Inr sd, ?st1\<lparr>sessions := AList.update (''ses_'' @ u) sd (sessions ?st1)\<rparr>)"
    by blast
  then show ?thesis
  proof cases
    case fail
    then show ?thesis using le assms by simp
  next
    case ok
    have "length (sessions ?st1) < MAX_SESSIONS cfg" by (rule check_limit_admits[OF ok(1)])
    moreover have "length (AList.update (''ses_'' @ u) sd (sessions ?st1))
                     \<le> Suc (length (sessions ?st1))" by (rule length_update_le)
    ultimately show ?thesis by (simp add: ok(2))
  qed
qed

subsection \<open>What each route does to the registry\<close>

lemma map_entry_const_twice:
  "AList.map_entry k (\<lambda>_. b) (AList.map_entry k f al) = AList.map_entry k (\<lambda>_. b) al"
  by (induction al) auto

lemma map_entry_absent: "map_of al k = None \<Longrightarrow> AList.map_entry k f al = al"
  by (induction al) (auto split: if_splits)

lemma map_entry_present:
  "map_of al k = Some s \<Longrightarrow> AList.map_entry k f al = AList.map_entry k (\<lambda>_. f s) al"
  by (induction al) (auto split: if_splits)

lemma getSession_absent:
  "map_of (sessions st) k = None \<Longrightarrow> getSession k now st = (Inl (SessionNotFound k), st)"
  by (simp add: getSession_def)

lemma getSession_live:
  "map_of (sessions st) k = Some s \<Longrightarrow>
     getSession k now st
       = (Inr (s\<lparr>lastAccessed := now\<rparr>),
          st\<lparr>sessions := AList.map_entry k (\<lambda>_. s\<lparr>lastAccessed := now\<rparr>) (sessions st)\<rparr>)"
  using map_entry_present[of "sessions st" k s "\<lambda>s. s\<lparr>lastAccessed := now\<rparr>"]
  by (simp add: getSession_def)

lemma store_over:
  "store k s1 (st\<lparr>sessions := AList.map_entry k (\<lambda>_. s0) al\<rparr>)
     = st\<lparr>sessions := AList.map_entry k (\<lambda>_. s1) al\<rparr>"
  by (simp add: store_def map_entry_const_twice)

lemma navigate_absent:
  "map_of (sessions st) k = None \<Longrightarrow>
     session_navigate k url a st = ((500, Failure (''Session not found: '' @ k)), st)"
  by (simp add: session_navigate_def getSession_absent)

lemma navigate_live:
  assumes "map_of (sessions st) k = Some s"
  shows "snd (session_navigate k url a st)
           = st\<lparr>sessions := AList.map_entry k
                 (\<lambda>_. case getCurrentPage (browser_newPage a) (s\<lparr>lastAccessed := Date_now a\<rparr>) of
                        Inl err \<Rightarrow> s\<lparr>lastAccessed := Date_now a\<rparr>
                      | Inr (p, s1) \<Rightarrow>
                          if page_setViewport a = None \<and> page_goto a = None
                          then s1\<lparr>currentUrl := Some url\<rparr> else s1)
                 (sessions st)\<rparr>"
  by (simp add: session_navigate_def getSession_live[OF assms] store_over Let_def
      split: sum.split option.split prod.split)

lemma click_live:
  assumes "map_of (sessions st) k = Some s"
  shows "snd (session_click k sel w a st)
           = st\<lparr>sessions := AList.map_entry k
                 (\<lambda>_. case getCurrentPage (browser_newPage a) (s\<lparr>lastAccessed := Date_now a\<rparr>) of
                        Inl err \<Rightarrow> s\<lparr>lastAccessed := Date_now a\<rparr>
                      | Inr (p, s1) \<Rightarrow> if page_click a = None \<and> (\<exists>t. page_title a = Inr t)
                          then s1\<lparr>currentUrl := Some (page_url a)\<rparr> else s1)
                 (sessions st)\<rparr>"
  by (simp add: session_click_def getSession_live[OF assms] store_over Let_def
      split: sum.split option.split prod.split)

lemma click_absent:
  "map_of (sessions st) k = None \<Longrightarrow>
     session_click k sel w a st = ((500, Failure (''Session not found: '' @ k)), st)"
  by (simp add: session_click_def getSession_absent)

lemma screenshot_live:
  assumes "map_of (sessions st) k = Some s"
  shows "snd (session_screenshot k w a st)
           = st\<lparr>sessions := AList.map_entry k
                 (\<lambda>_. case getCurrentPage (browser_newPage a) (s\<lparr>lastAccessed := Date_now a\<rparr>) of
                        Inl err \<Rightarrow> s\<lparr>lastAccessed := Date_now a\<rparr>
                      | Inr (p, s1) \<Rightarrow> s1)
                 (sessions st)\<rparr>"
  by (simp add: session_screenshot_def getSession_live[OF assms] store_over Let_def
      split: sum.split option.split prod.split)

lemma screenshot_absent:
  "map_of (sessions st) k = None \<Longrightarrow>
     session_screenshot k w a st = ((500, Failure (''Session not found: '' @ k)), st)"
  by (simp add: session_screenshot_def getSession_absent)

lemma evaluate_live:
  assumes "map_of (sessions st) k = Some s"
  shows "snd (session_evaluate k script a st)
           = st\<lparr>sessions := AList.map_entry k
                 (\<lambda>_. case getCurrentPage (browser_newPage a) (s\<lparr>lastAccessed := Date_now a\<rparr>) of
                        Inl err \<Rightarrow> s\<lparr>lastAccessed := Date_now a\<rparr>
                      | Inr (p, s1) \<Rightarrow> s1)
                 (sessions st)\<rparr>"
  by (simp add: session_evaluate_def getSession_live[OF assms] store_over Let_def
      split: sum.split option.split prod.split)

lemma evaluate_absent:
  "map_of (sessions st) k = None \<Longrightarrow>
     session_evaluate k script a st = ((500, Failure (''Session not found: '' @ k)), st)"
  by (simp add: session_evaluate_def getSession_absent)

lemma content_live:
  assumes "map_of (sessions st) k = Some s"
  shows "snd (session_content k a st)
           = st\<lparr>sessions := AList.map_entry k
                 (\<lambda>_. case getCurrentPage (browser_newPage a) (s\<lparr>lastAccessed := Date_now a\<rparr>) of
                        Inl err \<Rightarrow> s\<lparr>lastAccessed := Date_now a\<rparr>
                      | Inr (p, s1) \<Rightarrow> s1)
                 (sessions st)\<rparr>"
  by (simp add: session_content_def getSession_live[OF assms] store_over Let_def
      split: sum.split option.split prod.split)

lemma content_absent:
  "map_of (sessions st) k = None \<Longrightarrow>
     session_content k a st = ((500, Failure (''Session not found: '' @ k)), st)"
  by (simp add: session_content_def getSession_absent)

lemma info_live:
  assumes "map_of (sessions st) k = Some s"
  shows "session_info k a st
           = ((200, InfoOk (info_of (Date_now_reply a) (s\<lparr>lastAccessed := Date_now a\<rparr>))),
              st\<lparr>sessions := AList.map_entry k (\<lambda>_. s\<lparr>lastAccessed := Date_now a\<rparr>)
                                (sessions st)\<rparr>)"
  by (simp add: session_info_def getSession_live[OF assms])

lemma info_absent:
  "map_of (sessions st) k = None \<Longrightarrow>
     session_info k a st = ((404, Failure (''Session not found: '' @ k)), st)"
  by (simp add: session_info_def getSession_absent)

lemma map_entry_id: "AList.map_entry k (\<lambda>s. s) al = al"
  by (induction al) auto

lemma map_fst_map_entry: "map fst (AList.map_entry k f al) = map fst al"
  by (induction al) auto

lemma set_map_entry_cases:
  "x \<in> set (AList.map_entry k f al) \<Longrightarrow> x \<in> set al \<or> (\<exists>s. (k, s) \<in> set al \<and> x = (k, f s))"
  by (induction al) (auto split: if_splits)

lemma set_update_cases: "x \<in> set (AList.update k v al) \<Longrightarrow> x \<in> set al \<or> x = (k, v)"
  by (induction al) (auto split: if_splits)

lemma set_delete_subset: "set (AList.delete k al) \<subseteq> set al"
  by (auto simp: AList.delete_eq)

lemma shape_from_live:
  assumes "\<And>s. map_of al k = Some s \<Longrightarrow> al' = AList.map_entry k (\<lambda>_. X s) al"
    and "map_of al k = None \<Longrightarrow> al' = al"
  shows "al' = AList.map_entry k X al"
proof (cases "map_of al k")
  case None
  then show ?thesis using assms(2) by (simp add: map_entry_absent)
next
  case (Some s)
  then show ?thesis using assms(1)[OF Some] map_entry_present[OF Some, of X] by simp
qed

lemma gcp_pages_if:
  "pages (case getCurrentPage np (s\<lparr>lastAccessed := t\<rparr>) of
            Inl err \<Rightarrow> s\<lparr>lastAccessed := t\<rparr>
          | Inr (p, s1) \<Rightarrow> if c then s1\<lparr>currentUrl := u\<rparr> else s1) = pages s
   \<or> pages s = [] \<and>
     length (pages (case getCurrentPage np (s\<lparr>lastAccessed := t\<rparr>) of
            Inl err \<Rightarrow> s\<lparr>lastAccessed := t\<rparr>
          | Inr (p, s1) \<Rightarrow> if c then s1\<lparr>currentUrl := u\<rparr> else s1)) = 1"
  by (auto simp: getCurrentPage_def split: sum.splits)

lemma gcp_pages:
  "pages (case getCurrentPage np (s\<lparr>lastAccessed := t\<rparr>) of
            Inl err \<Rightarrow> s\<lparr>lastAccessed := t\<rparr>
          | Inr (p, s1) \<Rightarrow> s1) = pages s
   \<or> pages s = [] \<and>
     length (pages (case getCurrentPage np (s\<lparr>lastAccessed := t\<rparr>) of
            Inl err \<Rightarrow> s\<lparr>lastAccessed := t\<rparr>
          | Inr (p, s1) \<Rightarrow> s1)) = 1"
  by (auto simp: getCurrentPage_def split: sum.splits)

lemma navigate_sessions:
  "sessions (snd (session_navigate k url a st))
     = AList.map_entry k
         (\<lambda>s. case getCurrentPage (browser_newPage a) (s\<lparr>lastAccessed := Date_now a\<rparr>) of
                 Inl err \<Rightarrow> s\<lparr>lastAccessed := Date_now a\<rparr>
               | Inr (p, s1) \<Rightarrow>
                   if page_setViewport a = None \<and> page_goto a = None
                   then s1\<lparr>currentUrl := Some url\<rparr> else s1)
         (sessions st)"
  by (rule shape_from_live) (simp_all add: navigate_live navigate_absent)

lemma click_sessions:
  "sessions (snd (session_click k sel w a st))
     = AList.map_entry k
         (\<lambda>s. case getCurrentPage (browser_newPage a) (s\<lparr>lastAccessed := Date_now a\<rparr>) of
                 Inl err \<Rightarrow> s\<lparr>lastAccessed := Date_now a\<rparr>
               | Inr (p, s1) \<Rightarrow>
                   if page_click a = None \<and> (\<exists>t. page_title a = Inr t)
                   then s1\<lparr>currentUrl := Some (page_url a)\<rparr> else s1)
         (sessions st)"
  by (rule shape_from_live) (simp_all add: click_live click_absent)

lemma screenshot_sessions:
  "sessions (snd (session_screenshot k w a st))
     = AList.map_entry k
         (\<lambda>s. case getCurrentPage (browser_newPage a) (s\<lparr>lastAccessed := Date_now a\<rparr>) of
                 Inl err \<Rightarrow> s\<lparr>lastAccessed := Date_now a\<rparr>
               | Inr (p, s1) \<Rightarrow> s1)
         (sessions st)"
  by (rule shape_from_live) (simp_all add: screenshot_live screenshot_absent)

lemma evaluate_sessions:
  "sessions (snd (session_evaluate k script a st))
     = AList.map_entry k
         (\<lambda>s. case getCurrentPage (browser_newPage a) (s\<lparr>lastAccessed := Date_now a\<rparr>) of
                 Inl err \<Rightarrow> s\<lparr>lastAccessed := Date_now a\<rparr>
               | Inr (p, s1) \<Rightarrow> s1)
         (sessions st)"
  by (rule shape_from_live) (simp_all add: evaluate_live evaluate_absent)

lemma content_sessions:
  "sessions (snd (session_content k a st))
     = AList.map_entry k
         (\<lambda>s. case getCurrentPage (browser_newPage a) (s\<lparr>lastAccessed := Date_now a\<rparr>) of
                 Inl err \<Rightarrow> s\<lparr>lastAccessed := Date_now a\<rparr>
               | Inr (p, s1) \<Rightarrow> s1)
         (sessions st)"
  by (rule shape_from_live) (simp_all add: content_live content_absent)

lemma info_sessions:
  "sessions (snd (session_info k a st))
     = AList.map_entry k (\<lambda>s. s\<lparr>lastAccessed := Date_now a\<rparr>) (sessions st)"
  by (rule shape_from_live) (simp_all add: info_live info_absent)

text \<open>Every route but create and delete rewrites at most one entry, in place.\<close>

lemma serve_shape:
  "(\<exists>k F. sessions (snd (serve cfg e r a st)) = AList.map_entry k F (sessions st)
      \<and> (\<forall>s. pages (F s) = pages s \<or> pages s = [] \<and> length (pages (F s)) = 1))
   \<or> (\<exists>k. r = DELETE_session k)
   \<or> (\<exists>md. r = POST_session_create md)"
proof (cases r)
  case GET_health
  have "sessions (snd (serve cfg e r a st)) = AList.map_entry [] (\<lambda>s. s) (sessions st)"
    by (simp add: GET_health health_def map_entry_id)
  then show ?thesis by blast
next
  case (POST_session_create md)
  then show ?thesis by blast
next
  case (GET_session_info k)
  have "sessions (snd (serve cfg e r a st))
          = AList.map_entry k (\<lambda>s. s\<lparr>lastAccessed := Date_now a\<rparr>) (sessions st)"
    by (simp add: GET_session_info info_sessions)
  moreover have "\<forall>s. pages (s\<lparr>lastAccessed := Date_now a\<rparr>) = pages s" by simp
  ultimately show ?thesis by blast
next
  case (POST_session_navigate k url)
  show ?thesis
    apply (rule disjI1)
    apply (rule exI[of _ k])
    apply (rule exI)
    apply (rule conjI)
     apply (simp only: POST_session_navigate serve.simps)
     apply (rule navigate_sessions)
    apply (rule allI)
    apply (rule gcp_pages_if)
    done
next
  case (POST_session_click k sel w)
  show ?thesis
    apply (rule disjI1)
    apply (rule exI[of _ k])
    apply (rule exI)
    apply (rule conjI)
     apply (simp only: POST_session_click serve.simps)
     apply (rule click_sessions)
    apply (rule allI)
    apply (rule gcp_pages_if)
    done
next
  case (POST_session_screenshot k w)
  show ?thesis
    apply (rule disjI1)
    apply (rule exI[of _ k])
    apply (rule exI)
    apply (rule conjI)
     apply (simp only: POST_session_screenshot serve.simps)
     apply (rule screenshot_sessions)
    apply (rule allI)
    apply (rule gcp_pages)
    done
next
  case (POST_session_evaluate k script)
  show ?thesis
    apply (rule disjI1)
    apply (rule exI[of _ k])
    apply (rule exI)
    apply (rule conjI)
     apply (simp only: POST_session_evaluate serve.simps)
     apply (rule evaluate_sessions)
    apply (rule allI)
    apply (rule gcp_pages)
    done
next
  case (GET_session_content k)
  show ?thesis
    apply (rule disjI1)
    apply (rule exI[of _ k])
    apply (rule exI)
    apply (rule conjI)
     apply (simp only: GET_session_content serve.simps)
     apply (rule content_sessions)
    apply (rule allI)
    apply (rule gcp_pages)
    done
next
  case (DELETE_session k)
  then show ?thesis by blast
next
  case GET_sessions
  have "sessions (snd (serve cfg e r a st)) = AList.map_entry [] (\<lambda>s. s) (sessions st)"
    by (simp add: GET_sessions list_sessions_def map_entry_id Let_def)
  then show ?thesis by blast
qed

subsection \<open>Invariants of the server\<close>

lemma serve_delete_sessions:
  "sessions (snd (session_delete e k st)) = AList.delete k (sessions st)"
  using destroySession_sessions[of e k st]
  by (cases "destroySession e k st") (simp add: session_delete_def)

lemma serve_create_snd:
  "snd (session_create cfg e md a st)
     = snd (createSession cfg e md (Date_now_sweep a) (randomUUID a) (puppeteer_launch a)
              (Date_now a) st)"
  by (simp add: session_create_def split: prod.splits sum.splits)

lemma expire_loop_subset:
  "set (sessions (snd (expire_loop e ks st))) \<subseteq> set (sessions st)"
proof (induction ks arbitrary: st)
  case Nil
  then show ?case by simp
next
  case (Cons k ks)
  show ?case
  proof (cases "map_of (sessions st) k")
    case None
    then show ?thesis by simp
  next
    case (Some s)
    have "set (sessions (snd (expire_loop e ks (snd (destroySession e k st)))))
            \<subseteq> set (sessions (snd (destroySession e k st)))"
      by (rule Cons.IH)
    also have "\<dots> \<subseteq> set (sessions st)"
      by (simp add: destroySession_sessions set_delete_subset)
    finally show ?thesis using Some by simp
  qed
qed

lemma expire_loop_distinct:
  "distinct (map fst (sessions st)) \<Longrightarrow>
     distinct (map fst (sessions (snd (expire_loop e ks st))))"
proof (induction ks arbitrary: st)
  case Nil
  then show ?case by simp
next
  case (Cons k ks)
  show ?case
  proof (cases "map_of (sessions st) k")
    case None
    then show ?thesis using Cons.prems by simp
  next
    case (Some s)
    have "distinct (map fst (sessions (snd (destroySession e k st))))"
      using Cons.prems by (simp add: destroySession_sessions distinct_delete)
    from Cons.IH[OF this] show ?thesis using Some by simp
  qed
qed

lemma check_limit_subset:
  "set (sessions (snd (check_limit cfg e t st))) \<subseteq> set (sessions st)"
  by (simp add: check_limit_snd cleanup_snd expire_loop_subset)

lemma check_limit_distinct:
  "distinct (map fst (sessions st)) \<Longrightarrow>
     distinct (map fst (sessions (snd (check_limit cfg e t st))))"
  by (simp add: check_limit_snd cleanup_snd expire_loop_distinct)

lemma createSession_sessions:
  "sessions (snd (createSession cfg e md t u l tc st)) = sessions (snd (check_limit cfg e t st))
   \<or> (\<exists>sd. pages sd = [] \<and>
         sessions (snd (createSession cfg e md t u l tc st))
           = AList.update (''ses_'' @ u) sd (sessions (snd (check_limit cfg e t st))))"
proof -
  from createSession_cases[of cfg e md t u l tc st]
  consider (fail) err where
      "createSession cfg e md t u l tc st = (Inl err, snd (check_limit cfg e t st))"
    | (ok) b sd where
      "sd = \<lparr>id' = ''ses_'' @ u, browser = b, pages = [], lastAccessed = tc,
              currentUrl = None, metadata = (case md of None \<Rightarrow> [] | Some m \<Rightarrow> m)\<rparr>"
      "createSession cfg e md t u l tc st
         = (Inr sd, (snd (check_limit cfg e t st))
              \<lparr>sessions := AList.update (''ses_'' @ u) sd
                             (sessions (snd (check_limit cfg e t st)))\<rparr>)"
    by blast
  then show ?thesis
  proof cases
    case fail
    then show ?thesis by simp
  next
    case ok
    have "pages sd = []" by (simp add: ok(1))
    moreover have "sessions (snd (createSession cfg e md t u l tc st))
           = AList.update (''ses_'' @ u) sd (sessions (snd (check_limit cfg e t st)))"
      by (simp add: ok(2))
    ultimately show ?thesis by blast
  qed
qed

lemma createSession_pages:
  assumes "\<forall>x \<in> set (sessions st). length (pages (snd x)) \<le> 1"
  shows "\<forall>x \<in> set (sessions (snd (createSession cfg e md t u l tc st))).
           length (pages (snd x)) \<le> 1"
proof -
  have sub: "\<forall>x \<in> set (sessions (snd (check_limit cfg e t st))). length (pages (snd x)) \<le> 1"
    using assms check_limit_subset by blast
  from createSession_sessions[of cfg e md t u l tc st] show ?thesis
  proof
    assume "sessions (snd (createSession cfg e md t u l tc st))
              = sessions (snd (check_limit cfg e t st))"
    then show ?thesis using sub by simp
  next
    assume "\<exists>sd. pages sd = [] \<and>
         sessions (snd (createSession cfg e md t u l tc st))
           = AList.update (''ses_'' @ u) sd (sessions (snd (check_limit cfg e t st)))"
    then obtain sd where sd: "pages sd = []"
      "sessions (snd (createSession cfg e md t u l tc st))
           = AList.update (''ses_'' @ u) sd (sessions (snd (check_limit cfg e t st)))"
      by blast
    show ?thesis
    proof
      fix x assume "x \<in> set (sessions (snd (createSession cfg e md t u l tc st)))"
      then have "x \<in> set (sessions (snd (check_limit cfg e t st))) \<or> x = (''ses_'' @ u, sd)"
        by (simp add: sd(2) set_update_cases)
      then show "length (pages (snd x)) \<le> 1" using sub sd(1) by auto
    qed
  qed
qed

lemma createSession_distinct:
  assumes "distinct (map fst (sessions st))"
  shows "distinct (map fst (sessions (snd (createSession cfg e md t u l tc st))))"
  using createSession_sessions[of cfg e md t u l tc st] check_limit_distinct[OF assms, of cfg e t]
  by (auto simp: distinct_update)

lemma serve_bound:
  assumes "length (sessions st) \<le> MAX_SESSIONS cfg"
  shows "length (sessions (snd (serve cfg e r a st))) \<le> MAX_SESSIONS cfg"
  using serve_shape[of cfg e r a st]
proof (elim disjE exE conjE)
  fix k F assume "sessions (snd (serve cfg e r a st)) = AList.map_entry k F (sessions st)"
  then show ?thesis using assms by (simp add: length_map_entry)
next
  fix k assume "r = DELETE_session k"
  then show ?thesis
    using assms length_delete_le[of k "sessions st"] by (simp add: serve_delete_sessions)
next
  fix md assume "r = POST_session_create md"
  then show ?thesis using createSession_bound[OF assms] by (simp add: serve_create_snd)
qed

lemma serve_pages:
  assumes "\<forall>x \<in> set (sessions st). length (pages (snd x)) \<le> 1"
  shows "\<forall>x \<in> set (sessions (snd (serve cfg e r a st))). length (pages (snd x)) \<le> 1"
  using serve_shape[of cfg e r a st]
proof (elim disjE exE conjE)
  fix k F
  assume eq: "sessions (snd (serve cfg e r a st)) = AList.map_entry k F (sessions st)"
    and F: "\<forall>s. pages (F s) = pages s \<or> pages s = [] \<and> length (pages (F s)) = 1"
  show ?thesis
  proof
    fix x assume "x \<in> set (sessions (snd (serve cfg e r a st)))"
    then have "x \<in> set (sessions st) \<or> (\<exists>s. (k, s) \<in> set (sessions st) \<and> x = (k, F s))"
      by (simp add: eq set_map_entry_cases)
    then show "length (pages (snd x)) \<le> 1"
    proof
      assume "x \<in> set (sessions st)"
      then show ?thesis using assms by blast
    next
      assume "\<exists>s. (k, s) \<in> set (sessions st) \<and> x = (k, F s)"
      then obtain s where s: "(k, s) \<in> set (sessions st)" "x = (k, F s)" by blast
      from assms s(1) have "length (pages s) \<le> 1" by force
      with F[rule_format, of s] show ?thesis by (auto simp: s(2))
    qed
  qed
next
  fix k assume "r = DELETE_session k"
  then show ?thesis
    using assms set_delete_subset[of k "sessions st"]
    by (auto simp: serve_delete_sessions)
next
  fix md assume "r = POST_session_create md"
  then show ?thesis using createSession_pages[OF assms] by (simp add: serve_create_snd)
qed

lemma serve_distinct:
  assumes "distinct (map fst (sessions st))"
  shows "distinct (map fst (sessions (snd (serve cfg e r a st))))"
  using serve_shape[of cfg e r a st]
proof (elim disjE exE conjE)
  fix k F assume "sessions (snd (serve cfg e r a st)) = AList.map_entry k F (sessions st)"
  then show ?thesis using assms by (simp add: map_fst_map_entry)
next
  fix k assume "r = DELETE_session k"
  then show ?thesis using assms by (simp add: serve_delete_sessions distinct_delete)
next
  fix md assume "r = POST_session_create md"
  then show ?thesis using createSession_distinct[OF assms] by (simp add: serve_create_snd)
qed

lemma step_bound:
  "length (sessions st) \<le> MAX_SESSIONS cfg \<Longrightarrow>
     length (sessions (step cfg e i st)) \<le> MAX_SESSIONS cfg"
proof (cases i)
  case (Http r a)
  assume "length (sessions st) \<le> MAX_SESSIONS cfg"
  from serve_bound[OF this] show ?thesis by (simp add: Http)
next
  case (Tick now)
  assume "length (sessions st) \<le> MAX_SESSIONS cfg"
  with cleanup_length_le[of cfg e now st] show ?thesis by (simp add: Tick)
qed

lemma step_pages:
  "\<forall>x \<in> set (sessions st). length (pages (snd x)) \<le> 1 \<Longrightarrow>
     \<forall>x \<in> set (sessions (step cfg e i st)). length (pages (snd x)) \<le> 1"
proof (cases i)
  case (Http r a)
  assume "\<forall>x \<in> set (sessions st). length (pages (snd x)) \<le> 1"
  from serve_pages[OF this] show ?thesis by (simp add: Http)
next
  case (Tick now)
  assume "\<forall>x \<in> set (sessions st). length (pages (snd x)) \<le> 1"
  then show ?thesis
    using expire_loop_subset[of e "expiredSessions cfg now (sessions st)" st]
    by (simp add: Tick cleanup_snd) blast
qed

lemma step_distinct:
  "distinct (map fst (sessions st)) \<Longrightarrow> distinct (map fst (sessions (step cfg e i st)))"
  by (cases i) (simp_all add: serve_distinct cleanup_snd expire_loop_distinct)

lemma run_bound:
  "length (sessions st) \<le> MAX_SESSIONS cfg \<Longrightarrow>
     length (sessions (run cfg e ins st)) \<le> MAX_SESSIONS cfg"
  by (induction ins arbitrary: st) (simp_all add: step_bound)

lemma run_pages:
  "\<forall>x \<in> set (sessions st). length (pages (snd x)) \<le> 1 \<Longrightarrow>
     \<forall>x \<in> set (sessions (run cfg e ins st)). length (pages (snd x)) \<le> 1"
proof (induction ins arbitrary: st)
  case Nil
  then show ?case by simp
next
  case (Cons i ins)
  from Cons.IH[OF step_pages[OF Cons.prems]] show ?case by simp
qed

lemma run_distinct:
  "distinct (map fst (sessions st)) \<Longrightarrow> distinct (map fst (sessions (run cfg e ins st)))"
  by (induction ins arbitrary: st) (simp_all add: step_distinct)

subsection \<open>The limit check at capacity\<close>



lemma message_limit_not_notfound: "message (SessionLimit n) \<noteq> message (SessionNotFound k)"
  by simp

lemmas eval_defs =
  createSession_def check_limit_def cleanupExpiredSessions_def expiredSessions_def
  destroySession_def close_browser_def session_create_def CONFIG_def quiet_def
  five_sessions_def session_at_def answers_ok_def init_def Let_def

subsection \<open>Routes on a live session\<close>

lemma keys_card:
  "distinct (map fst al) \<Longrightarrow> card (dom (map_of al)) = length al"
proof -
  assume d: "distinct (map fst al)"
  have "card (dom (map_of al)) = card (set (map fst al))"
    by (simp add: dom_map_of_conv_image_fst)
  also have "\<dots> = length (map fst al)" using d by (rule distinct_card)
  finally show ?thesis by simp
qed

lemma navigate_goto_fails:
  assumes "map_of (sessions st) k = Some s"
    and "page_goto a = Some m" and "page_setViewport a = None"
    and "pages s \<noteq> [] \<or> (\<exists>p. browser_newPage a = Inr p)"
  shows "fst (session_navigate k url a st) = (500, Failure m)"
  using assms(2,3,4)
  by (auto simp: session_navigate_def getSession_live[OF assms(1)] getCurrentPage_def Let_def)

lemma navigate_currentUrl:
  assumes "map_of (sessions st) k = Some s"
  shows "map_option currentUrl (map_of (sessions (snd (session_navigate k url a st))) k)
           = Some (if page_setViewport a = None \<and> page_goto a = None
                      \<and> (pages s \<noteq> [] \<or> (\<exists>p. browser_newPage a = Inr p))
                   then Some url else currentUrl s)"
  by (auto simp: navigate_sessions map_of_map_entry assms getCurrentPage_def
      split: sum.splits)

lemma navigate_other:
  "k' \<noteq> k \<Longrightarrow>
     map_of (sessions (snd (session_navigate k url a st))) k' = map_of (sessions st) k'"
  by (simp add: navigate_sessions map_of_map_entry)

lemma expiredSessions_ignores_page_limit:
  "expiredSessions (cfg\<lparr>MAX_PAGES_PER_SESSION := n\<rparr>) now reg = expiredSessions cfg now reg"
  by (simp add: expiredSessions_def)

lemma cleanup_ignores_page_limit:
  "cleanupExpiredSessions (cfg\<lparr>MAX_PAGES_PER_SESSION := n\<rparr>) e now st
     = cleanupExpiredSessions cfg e now st"
  by (simp add: cleanupExpiredSessions_def expiredSessions_ignores_page_limit)

lemma check_limit_ignores_page_limit:
  "check_limit (cfg\<lparr>MAX_PAGES_PER_SESSION := n\<rparr>) e t st = check_limit cfg e t st"
  by (simp add: check_limit_def cleanup_ignores_page_limit split: prod.splits sum.splits)

lemma createSession_ignores_page_limit:
  "createSession (cfg\<lparr>MAX_PAGES_PER_SESSION := n\<rparr>) e md t u l tc st
     = createSession cfg e md t u l tc st"
  by (simp add: createSession_def check_limit_ignores_page_limit)

lemma serve_ignores_page_limit:
  "serve (cfg\<lparr>MAX_PAGES_PER_SESSION := n\<rparr>) e r a st = serve cfg e r a st"
  by (cases r) (simp_all add: health_def session_create_def createSession_ignores_page_limit)

lemma step_ignores_page_limit:
  "step (cfg\<lparr>MAX_PAGES_PER_SESSION := n\<rparr>) e i st = step cfg e i st"
  by (cases i) (simp_all add: serve_ignores_page_limit cleanup_ignores_page_limit)

lemma run_ignores_page_limit:
  "run (cfg\<lparr>MAX_PAGES_PER_SESSION := n\<rparr>) e ins st = run cfg e ins st"
  by (induction ins arbitrary: st) (simp_all add: step_ignores_page_limit)

lemma info_pagesCount:
  assumes "\<forall>x \<in> set (sessions st). length (pages (snd x)) \<le> 1"
    and "fst (session_info k a st) = (200, InfoOk i)"
  shows "pagesCount i \<le> 1"
proof (cases "map_of (sessions st) k")
  case None
  with assms(2) show ?thesis by (simp add: info_absent)
next
  case (Some s)
  then have "(k, s) \<in> set (sessions st)" by (rule map_of_SomeD)
  with assms(1) have "length (pages s) \<le> 1" by force
  with assms(2) show ?thesis by (auto simp: info_live[OF Some] info_of_def)
qed

lemma list_pagesCount:
  assumes "\<forall>x \<in> set (sessions st). length (pages (snd x)) \<le> 1"
    and "fst (list_sessions a st) = (200, ListOk rows n)"
  shows "\<forall>i \<in> set rows. pagesCount i \<le> 1"
proof
  fix i assume "i \<in> set rows"
  with assms(2) obtain j s where
    js: "(j, s) \<in> set (zip [0 ..< length (sessions st)] (map snd (sessions st)))"
      "i = info_of (Date_now_row a j) s"
    by (auto simp: list_sessions_def Let_def)
  from js(1) have "s \<in> set (map snd (sessions st))" by (rule set_zip_rightD)
  with assms(1) have "length (pages s) \<le> 1" by auto
  then show "pagesCount i \<le> 1" by (simp add: js(2) info_of_def)
qed

lemmas route_defs =
  session_navigate_def session_click_def session_screenshot_def session_evaluate_def
  session_content_def session_info_def session_delete_def list_sessions_def health_def
  info_of_def getSession_def getCurrentPage_def store_def

subsection \<open>Requests of a temporary session\<close>

lemma delete_map_entry: "AList.delete k (AList.map_entry k f al) = AList.delete k al"
  by (induction al) auto

lemma request_delivered:
  "fst w = Delivered \<Longrightarrow>
     browserServerRequest cfg e w r st
       = (Inr (snd (fst (serve cfg e r (snd w) st))), snd (serve cfg e r (snd w) st))"
  by (simp add: browserServerRequest_def split: prod.splits)

lemma session_create_result:
  "(\<exists>m. fst (session_create cfg e md a st) = (500, Failure m)
        \<and> sessions (snd (session_create cfg e md a st))
            = sessions (snd (check_limit cfg e (Date_now_sweep a) st)))
   \<or> (\<exists>sd. fst (session_create cfg e md a st) = (200, CreateOk (''ses_'' @ randomUUID a) sd)
        \<and> (\<exists>s. sessions (snd (session_create cfg e md a st))
              = AList.update (''ses_'' @ randomUUID a) s
                  (sessions (snd (check_limit cfg e (Date_now_sweep a) st)))))"
proof -
  let ?c = "createSession cfg e md (Date_now_sweep a) (randomUUID a) (puppeteer_launch a)
              (Date_now a) st"
  let ?st1 = "snd (check_limit cfg e (Date_now_sweep a) st)"
  from createSession_cases[of cfg e md "Date_now_sweep a" "randomUUID a" "puppeteer_launch a"
      "Date_now a" st]
  consider (fail) err where "?c = (Inl err, ?st1)"
    | (ok) b sd where
      "sd = \<lparr>id' = ''ses_'' @ randomUUID a, browser = b, pages = [], lastAccessed = Date_now a,
              currentUrl = None, metadata = (case md of None \<Rightarrow> [] | Some m \<Rightarrow> m)\<rparr>"
      "?c = (Inr sd, ?st1\<lparr>sessions := AList.update (''ses_'' @ randomUUID a) sd (sessions ?st1)\<rparr>)"
    by blast
  then show ?thesis
  proof cases
    case fail
    then show ?thesis by (simp add: session_create_def)
  next
    case ok
    show ?thesis
      apply (rule disjI2)
      apply (simp add: session_create_def ok(2))
      apply (simp add: ok(1))
      apply blast
      done
  qed
qed

text \<open>
  A temporary session's requests, all delivered: what is left of the registry is what
  the create's limit check left, without the id the wrapper worked on.
\<close>

lemma temp_session_gone:
  assumes c: "(\<exists>m. fst (session_create cfg e md a st) = (500, Failure m)
        \<and> sessions (snd (session_create cfg e md a st))
            = sessions (snd (check_limit cfg e (Date_now_sweep a) st)))
   \<or> (\<exists>sd. fst (session_create cfg e md a st) = (200, CreateOk (''ses_'' @ randomUUID a) sd)
        \<and> (\<exists>s. sessions (snd (session_create cfg e md a st))
              = AList.update (''ses_'' @ randomUUID a) s
                  (sessions (snd (check_limit cfg e (Date_now_sweep a) st)))))"
    and A: "A = sessionId_of (snd (fst (session_create cfg e md a st)))"
    and fin: "sessions st' = AList.delete A (sessions (snd (session_create cfg e md a st)))"
  shows "set (sessions st') \<subseteq> set (sessions st)"
    and "fst (session_create cfg e md a st) = (200, CreateOk k sd') \<longrightarrow>
           map_of (sessions st') k = None"
proof -
  let ?C = "sessions (snd (check_limit cfg e (Date_now_sweep a) st))"
  have "sessions st' = AList.delete A ?C"
    using c A fin by (auto simp: delete_update_same)
  then have "set (sessions st') \<subseteq> set ?C" by (simp add: set_delete_subset)
  then show "set (sessions st') \<subseteq> set (sessions st)"
    using check_limit_subset[of cfg e "Date_now_sweep a" st] by blast
  show "fst (session_create cfg e md a st) = (200, CreateOk k sd') \<longrightarrow>
           map_of (sessions st') k = None"
    using A fin by (auto simp: map_of_delete_same)
qed

lemma navigate_temp_state:
  assumes "tempSession_of sessionId"
    and "fst w1 = Delivered" "fst w2 = Delivered" "fst w3 = Delivered" "fst w4 = Delivered"
  shows "\<exists>bs. fst (puppeteer_navigate cfg e sessionId url w1 w2 w3 w4 st) = ToolText bs"
    and "sessions (snd (puppeteer_navigate cfg e sessionId url w1 w2 w3 w4 st))
           = AList.delete (sessionId_of (snd (fst (session_create cfg e temporary (snd w1) st))))
               (sessions (snd (session_create cfg e temporary (snd w1) st)))"
  using assms
  by (simp_all add: puppeteer_navigate_def request_delivered Let_def serve_delete_sessions
      content_sessions navigate_sessions delete_map_entry split: prod.splits)

lemma screenshot_temp_state:
  assumes "tempSession_of sessionId" and "u \<noteq> []"
    and "fst w1 = Delivered" "fst w2 = Delivered" "fst w3 = Delivered" "fst w4 = Delivered"
  shows "\<exists>bs. fst (puppeteer_screenshot cfg e sessionId (Some u) sel w1 w2 w3 w4 st) = ToolText bs"
    and "sessions (snd (puppeteer_screenshot cfg e sessionId (Some u) sel w1 w2 w3 w4 st))
           = AList.delete (sessionId_of (snd (fst (session_create cfg e temporary (snd w1) st))))
               (sessions (snd (session_create cfg e temporary (snd w1) st)))"
  using assms
  by (simp_all add: puppeteer_screenshot_def request_delivered Let_def serve_delete_sessions
      screenshot_sessions navigate_sessions delete_map_entry split: prod.splits)

lemma screenshot_temp_no_url:
  assumes "tempSession_of sessionId" and "surl = None \<or> surl = Some []"
  shows "puppeteer_screenshot cfg e sessionId surl sel w1 w2 w3 w4 st
           = (ToolError ''Error: url is required when sessionId is not provided'', st)"
  using assms by (auto simp: puppeteer_screenshot_def)

lemmas client_defs =
  puppeteer_navigate_def puppeteer_screenshot_def browserServerRequest_def
  tempSession_of_def temporary_def goto_fails_def shot_fails_def

subsection \<open>Overlapping handlers\<close>

lemmas machine_defs =
  createSession_until_launch_def createSession_after_launch_def page_route_until_newPage_def
  page_route_after_newPage_def write_currentUrl_def start_def

text \<open>
  The parts, run one after the other with nothing in between, are the whole functions.
\<close>

lemma createSession_in_two_parts:
  "srv (createSession_after_launch (''ses_'' @ uuid) launch t_create
          (createSession_until_launch cfg e md t_sweep uuid
             \<lparr>srv = st, awaiting_launch = [], awaiting_page = []\<rparr>))
     = snd (createSession cfg e md t_sweep uuid launch t_create st)"
  by (cases "check_limit cfg e t_sweep st"; cases "fst (check_limit cfg e t_sweep st)"; cases launch)
     (auto simp: createSession_until_launch_def createSession_after_launch_def createSession_def
        Let_def)

lemma map_entry_after_const:
  "map_of al k = Some s \<Longrightarrow>
     AList.map_entry k g (AList.map_entry k (\<lambda>_. v) al) = AList.map_entry k (\<lambda>_. g v) al"
  by (induction al) (auto split: if_splits)

lemma getCurrentPage_in_two_parts:
  assumes "map_of (sessions st) k = Some s"
  shows "sessions (srv (page_route_after_newPage k np
          (page_route_until_newPage k now \<lparr>srv = st, awaiting_launch = [], awaiting_page = []\<rparr>)))
     = AList.map_entry k
         (\<lambda>s. case getCurrentPage np (s\<lparr>lastAccessed := now\<rparr>) of
                 Inl err \<Rightarrow> s\<lparr>lastAccessed := now\<rparr>
               | Inr (p, s1) \<Rightarrow> s1)
         (sessions st)"
proof -
  let ?F = "\<lambda>s. case getCurrentPage np (s\<lparr>lastAccessed := now\<rparr>) of
                 Inl err \<Rightarrow> s\<lparr>lastAccessed := now\<rparr>
               | Inr (p, s1) \<Rightarrow> s1"
  have rhs: "AList.map_entry k ?F (sessions st) = AList.map_entry k (\<lambda>_. ?F s) (sessions st)"
    by (rule map_entry_present[OF assms])
  note twice = map_entry_after_const[OF assms]
  show ?thesis
    unfolding rhs
    by (cases np)
       (simp_all add: page_route_until_newPage_def page_route_after_newPage_def
          getSession_live[OF assms] getCurrentPage_def twice)
qed







lemma map_of_subset:
  assumes "distinct (map fst al)" and "set al' \<subseteq> set al" and "map_of al' k = Some s"
  shows "map_of al k = Some s"
proof -
  from assms(3) have "(k, s) \<in> set al'" by (rule map_of_SomeD)
  with assms(2) have "(k, s) \<in> set al" by blast
  with assms(1) show ?thesis by (rule map_of_is_SomeI)
qed

lemma cleanup_subset:
  "set (sessions (snd (cleanupExpiredSessions cfg e now st))) \<subseteq> set (sessions st)"
  by (simp add: cleanup_snd expire_loop_subset)

lemma createSession_map_of:
  assumes d: "distinct (map fst (sessions st))"
    and m: "map_of (sessions (snd (createSession cfg e md t u l tc st))) k = Some s'"
  shows "pages s' = [] \<or> map_of (sessions st) k = Some s'"
proof -
  let ?C = "sessions (snd (check_limit cfg e t st))"
  have sub: "\<And>x. map_of ?C k = Some x \<Longrightarrow> map_of (sessions st) k = Some x"
    using map_of_subset[OF d check_limit_subset] by blast
  from createSession_sessions[of cfg e md t u l tc st] show ?thesis
  proof
    assume "sessions (snd (createSession cfg e md t u l tc st)) = ?C"
    with m sub show ?thesis by simp
  next
    assume "\<exists>sd. pages sd = [] \<and>
         sessions (snd (createSession cfg e md t u l tc st)) = AList.update (''ses_'' @ u) sd ?C"
    then obtain sd where sd: "pages sd = []"
      "sessions (snd (createSession cfg e md t u l tc st)) = AList.update (''ses_'' @ u) sd ?C"
      by blast
    from m sd sub show ?thesis by (auto simp: update_conv' split: if_splits)
  qed
qed

text \<open>
  What a whole step can do to the pages of the session stored under an id: leave them,
  store a new session without pages, or, only for the session its route works on,
  push the first page.
\<close>

lemma step_pages_frame:
  assumes d: "distinct (map fst (sessions st))"
    and m: "map_of (sessions (step cfg e i st)) k = Some s'"
  shows "pages s' = [] \<or> (\<exists>s. map_of (sessions st) k = Some s \<and> pages s' = pages s)
         \<or> tests_pages (Whole i) = Some k"
proof (cases i)
  case (Tick now)
  from m have "map_of (sessions st) k = Some s'"
    using map_of_subset[OF d cleanup_subset] by (simp add: Tick)
  then show ?thesis by blast
next
  case (Http r a)
  show ?thesis
  proof (cases r)
    case GET_health
    with m Http show ?thesis by (simp add: health_def)
  next
    case (POST_session_create md)
    with m Http createSession_map_of[OF d, of cfg e md "Date_now_sweep a" "randomUUID a"
        "puppeteer_launch a" "Date_now a" k s']
    show ?thesis by (auto simp: serve_create_snd)
  next
    case (GET_session_info k0)
    with m Http show ?thesis
      by (auto simp: info_sessions map_of_map_entry split: if_splits option.splits)
  next
    case (POST_session_navigate k0 url)
    show ?thesis
    proof (cases "k = k0")
      case True
      then show ?thesis by (simp add: Http POST_session_navigate)
    next
      case False
      with m show ?thesis
        by (simp add: Http POST_session_navigate navigate_sessions map_of_map_entry)
    qed
  next
    case (POST_session_click k0 sel w)
    show ?thesis
    proof (cases "k = k0")
      case True
      then show ?thesis by (simp add: Http POST_session_click)
    next
      case False
      with m show ?thesis
        by (simp add: Http POST_session_click click_sessions map_of_map_entry)
    qed
  next
    case (POST_session_screenshot k0 w)
    show ?thesis
    proof (cases "k = k0")
      case True
      then show ?thesis by (simp add: Http POST_session_screenshot)
    next
      case False
      with m show ?thesis
        by (simp add: Http POST_session_screenshot screenshot_sessions map_of_map_entry)
    qed
  next
    case (POST_session_evaluate k0 script)
    show ?thesis
    proof (cases "k = k0")
      case True
      then show ?thesis by (simp add: Http POST_session_evaluate)
    next
      case False
      with m show ?thesis
        by (simp add: Http POST_session_evaluate evaluate_sessions map_of_map_entry)
    qed
  next
    case (GET_session_content k0)
    show ?thesis
    proof (cases "k = k0")
      case True
      then show ?thesis by (simp add: Http GET_session_content)
    next
      case False
      with m show ?thesis
        by (simp add: Http GET_session_content content_sessions map_of_map_entry)
    qed
  next
    case (DELETE_session k0)
    with m Http show ?thesis
      by (auto simp: serve_delete_sessions delete_conv' split: if_splits)
  next
    case GET_sessions
    with m Http show ?thesis by (simp add: list_sessions_def Let_def)
  qed
qed

lemma getSession_sessions:
  "sessions (snd (getSession k now st))
     = AList.map_entry k (\<lambda>s. s\<lparr>lastAccessed := now\<rparr>) (sessions st)"
  by (simp add: getSession_def map_entry_absent split: option.splits)

lemma map_entry_keeps_pages:
  assumes "\<forall>s. pages (F s) = pages s"
  shows "(\<forall>x \<in> set al. length (pages (snd x)) \<le> 1) \<Longrightarrow>
           \<forall>x \<in> set (AList.map_entry k F al). length (pages (snd x)) \<le> 1"
    and "map_of (AList.map_entry k F al) k' = Some s' \<Longrightarrow>
           \<exists>s. map_of al k' = Some s \<and> pages s' = pages s"
proof -
  assume a: "\<forall>x \<in> set al. length (pages (snd x)) \<le> 1"
  show "\<forall>x \<in> set (AList.map_entry k F al). length (pages (snd x)) \<le> 1"
  proof
    fix x assume "x \<in> set (AList.map_entry k F al)"
    then have "x \<in> set al \<or> (\<exists>s. (k, s) \<in> set al \<and> x = (k, F s))"
      by (rule set_map_entry_cases)
    then show "length (pages (snd x)) \<le> 1" using a assms by force
  qed
next
  assume "map_of (AList.map_entry k F al) k' = Some s'"
  then show "\<exists>s. map_of al k' = Some s \<and> pages s' = pages s"
    using assms by (auto simp: map_of_map_entry split: if_splits option.splits)
qed

lemma act_pages:
  assumes I1: "distinct (map fst (sessions (srv m)))"
    and I2: "\<forall>x \<in> set (sessions (srv m)). length (pages (snd x)) \<le> 1"
    and I3: "distinct (awaiting_page m)"
    and I4: "\<forall>k \<in> set (awaiting_page m). \<forall>s. map_of (sessions (srv m)) k = Some s \<longrightarrow> pages s = []"
    and cond: "case tests_pages a of None \<Rightarrow> True | Some k \<Rightarrow> k \<notin> set (awaiting_page m)"
  shows "distinct (map fst (sessions (srv (act cfg e a m))))
       \<and> (\<forall>x \<in> set (sessions (srv (act cfg e a m))). length (pages (snd x)) \<le> 1)
       \<and> distinct (awaiting_page (act cfg e a m))
       \<and> (\<forall>k \<in> set (awaiting_page (act cfg e a m)).
            \<forall>s. map_of (sessions (srv (act cfg e a m))) k = Some s \<longrightarrow> pages s = [])"
proof (cases a)
  case (Whole i)
  have 4: "\<forall>k \<in> set (awaiting_page m).
            \<forall>s. map_of (sessions (step cfg e i (srv m))) k = Some s \<longrightarrow> pages s = []"
  proof (intro ballI allI impI)
    fix k s' assume k: "k \<in> set (awaiting_page m)"
      and s': "map_of (sessions (step cfg e i (srv m))) k = Some s'"
    from cond k have "tests_pages (Whole i) \<noteq> Some k" by (auto simp: Whole split: option.splits)
    with step_pages_frame[OF I1 s'] I4 k show "pages s' = []" by auto
  qed
  show ?thesis
    using step_distinct[OF I1, of cfg e i] step_pages[OF I2, of cfg e i] I3 4
    by (simp add: Whole)
next
  case (Create_check md t u)
  let ?C = "snd (check_limit cfg e t (srv m))"
  have s: "srv (act cfg e a m) = ?C" "awaiting_page (act cfg e a m) = awaiting_page m"
    by (simp_all add: Create_check createSession_until_launch_def split: prod.splits option.splits)
  have sub: "set (sessions ?C) \<subseteq> set (sessions (srv m))" by (rule check_limit_subset)
  have 4: "\<forall>k \<in> set (awaiting_page m). \<forall>s. map_of (sessions ?C) k = Some s \<longrightarrow> pages s = []"
    using map_of_subset[OF I1 sub] I4 by blast
  show ?thesis
    using check_limit_distinct[OF I1, of cfg e t] I2 sub I3 4 by (auto simp: s)
next
  case (Create_resume k0 l tc)
  show ?thesis
  proof (cases "\<exists>md b. map_of (awaiting_launch m) k0 = Some md \<and> l = Inr b")
    case False
    then have "srv (act cfg e a m) = srv m" "awaiting_page (act cfg e a m) = awaiting_page m"
      by (auto simp: Create_resume createSession_after_launch_def split: option.splits sum.splits)
    with I1 I2 I3 I4 show ?thesis by simp
  next
    case True
    then obtain md b where mb: "map_of (awaiting_launch m) k0 = Some md" "l = Inr b" by blast
    let ?sd = "\<lparr>id' = k0, browser = b, pages = [], lastAccessed = tc,
                 currentUrl = None, metadata = (case md of None \<Rightarrow> [] | Some x \<Rightarrow> x)\<rparr>"
    have s: "sessions (srv (act cfg e a m)) = AList.update k0 ?sd (sessions (srv m))"
      "awaiting_page (act cfg e a m) = awaiting_page m"
      by (simp_all add: Create_resume createSession_after_launch_def mb Let_def)
    have 2: "\<forall>x \<in> set (AList.update k0 ?sd (sessions (srv m))). length (pages (snd x)) \<le> 1"
    proof
      fix x assume "x \<in> set (AList.update k0 ?sd (sessions (srv m)))"
      then have "x \<in> set (sessions (srv m)) \<or> x = (k0, ?sd)" by (rule set_update_cases)
      with I2 show "length (pages (snd x)) \<le> 1" by auto
    qed
    have 4: "\<forall>k \<in> set (awaiting_page m).
               \<forall>s. map_of (AList.update k0 ?sd (sessions (srv m))) k = Some s \<longrightarrow> pages s = []"
      using I4 by (auto simp: update_conv' split: if_splits)
    show ?thesis using I1 2 I3 4 by (simp add: s distinct_update)
  qed
next
  case (Page_check k0 now)
  from cond have fresh: "k0 \<notin> set (awaiting_page m)" by (simp add: Page_check)
  let ?T = "AList.map_entry k0 (\<lambda>s. s\<lparr>lastAccessed := now\<rparr>) (sessions (srv m))"
  have keep: "\<forall>s. pages (s\<lparr>lastAccessed := now\<rparr>) = pages s" by simp
  have s: "sessions (srv (act cfg e a m)) = ?T"
    using getSession_sessions[of k0 now "srv m"]
    by (auto simp: Page_check page_route_until_newPage_def split: prod.splits sum.splits)
  have 2: "\<forall>x \<in> set ?T. length (pages (snd x)) \<le> 1"
    by (rule map_entry_keeps_pages(1)[OF keep I2])
  have old: "\<forall>k \<in> set (awaiting_page m). \<forall>s. map_of ?T k = Some s \<longrightarrow> pages s = []"
    using map_entry_keeps_pages(2)[OF keep] I4 by fastforce
  show ?thesis
  proof (cases "\<exists>s. map_of (sessions (srv m)) k0 = Some s \<and> pages s = []")
    case True
    then obtain s0 where s0: "map_of (sessions (srv m)) k0 = Some s0" "pages s0 = []" by blast
    have w: "awaiting_page (act cfg e a m) = awaiting_page m @ [k0]"
      by (simp add: Page_check page_route_until_newPage_def getSession_live[OF s0(1)] s0(2))
    have new: "\<forall>s. map_of ?T k0 = Some s \<longrightarrow> pages s = []"
      using s0 by (simp add: map_of_map_entry)
    show ?thesis using I1 2 I3 fresh old new by (auto simp: s w map_fst_map_entry)
  next
    case False
    have w: "awaiting_page (act cfg e a m) = awaiting_page m"
    proof (cases "map_of (sessions (srv m)) k0")
      case None
      then show ?thesis
        by (simp add: Page_check page_route_until_newPage_def getSession_absent)
    next
      case (Some s1)
      with False have "pages s1 \<noteq> []" by simp
      then show ?thesis
        by (simp add: Page_check page_route_until_newPage_def getSession_live[OF Some])
    qed
    show ?thesis using I1 2 I3 old by (simp add: s w map_fst_map_entry)
  qed
next
  case (Page_resume k0 np)
  show ?thesis
  proof (cases "k0 \<in> set (awaiting_page m) \<and> (\<exists>p. np = Inr p)")
    case False
    then have s: "srv (act cfg e a m) = srv m"
      and w: "set (awaiting_page (act cfg e a m)) \<subseteq> set (awaiting_page m)"
        "distinct (awaiting_page (act cfg e a m))"
      using I3 by (auto simp: Page_resume page_route_after_newPage_def split: sum.splits)
    show ?thesis using I1 I2 I4 w by (auto simp: s)
  next
    case True
    then obtain p where p: "k0 \<in> set (awaiting_page m)" "np = Inr p" by blast
    let ?P = "AList.map_entry k0 (\<lambda>s. s\<lparr>pages := pages s @ [p]\<rparr>) (sessions (srv m))"
    have s: "sessions (srv (act cfg e a m)) = ?P"
      and w: "awaiting_page (act cfg e a m) = remove1 k0 (awaiting_page m)"
      by (simp_all add: Page_resume page_route_after_newPage_def p)
    have 2: "\<forall>x \<in> set ?P. length (pages (snd x)) \<le> 1"
    proof
      fix x assume "x \<in> set ?P"
      then have "x \<in> set (sessions (srv m))
                 \<or> (\<exists>s. (k0, s) \<in> set (sessions (srv m)) \<and> x = (k0, s\<lparr>pages := pages s @ [p]\<rparr>))"
        by (rule set_map_entry_cases)
      then show "length (pages (snd x)) \<le> 1"
      proof
        assume "x \<in> set (sessions (srv m))"
        with I2 show ?thesis by blast
      next
        assume "\<exists>s. (k0, s) \<in> set (sessions (srv m)) \<and> x = (k0, s\<lparr>pages := pages s @ [p]\<rparr>)"
        then obtain s where s: "(k0, s) \<in> set (sessions (srv m))"
          "x = (k0, s\<lparr>pages := pages s @ [p]\<rparr>)" by blast
        from I1 s(1) have "map_of (sessions (srv m)) k0 = Some s" by (rule map_of_is_SomeI)
        with I4 p(1) have "pages s = []" by blast
        then show ?thesis by (simp add: s(2))
      qed
    qed
    have 4: "\<forall>k \<in> set (remove1 k0 (awaiting_page m)). \<forall>s. map_of ?P k = Some s \<longrightarrow> pages s = []"
    proof (intro ballI allI impI)
      fix k s assume k: "k \<in> set (remove1 k0 (awaiting_page m))" and m: "map_of ?P k = Some s"
      from k I3 have "k \<noteq> k0" "k \<in> set (awaiting_page m)" by auto
      with m I4 show "pages s = []" by (auto simp: map_of_map_entry)
    qed
    show ?thesis using I1 2 I3 4 by (simp add: s w map_fst_map_entry)
  qed
next
  case (Url_write k0 u)
  let ?U = "AList.map_entry k0 (\<lambda>s. s\<lparr>currentUrl := Some u\<rparr>) (sessions (srv m))"
  have keep: "\<forall>s. pages (s\<lparr>currentUrl := Some u\<rparr>) = pages s" by simp
  have s: "sessions (srv (act cfg e a m)) = ?U" "awaiting_page (act cfg e a m) = awaiting_page m"
    by (simp_all add: Url_write write_currentUrl_def)
  have 2: "\<forall>x \<in> set ?U. length (pages (snd x)) \<le> 1"
    by (rule map_entry_keeps_pages(1)[OF keep I2])
  have 4: "\<forall>k \<in> set (awaiting_page m). \<forall>s. map_of ?U k = Some s \<longrightarrow> pages s = []"
    using map_entry_keeps_pages(2)[OF keep] I4 by fastforce
  show ?thesis using I1 2 I3 4 by (simp add: s map_fst_map_entry)
qed

lemma interleave_pages:
  "distinct (map fst (sessions (srv m))) \<Longrightarrow>
   \<forall>x \<in> set (sessions (srv m)). length (pages (snd x)) \<le> 1 \<Longrightarrow>
   distinct (awaiting_page m) \<Longrightarrow>
   \<forall>k \<in> set (awaiting_page m). \<forall>s. map_of (sessions (srv m)) k = Some s \<longrightarrow> pages s = [] \<Longrightarrow>
   one_request_per_session cfg e as m \<Longrightarrow>
     \<forall>x \<in> set (sessions (srv (interleave cfg e as m))). length (pages (snd x)) \<le> 1"
proof (induction as arbitrary: m)
  case Nil
  then show ?case by simp
next
  case (Cons a as)
  from Cons.prems(5) have c: "case tests_pages a of None \<Rightarrow> True | Some k \<Rightarrow> k \<notin> set (awaiting_page m)"
    and r: "one_request_per_session cfg e as (act cfg e a m)" by simp_all
  note A = act_pages[OF Cons.prems(1-4) c, of cfg e]
  from A have "distinct (map fst (sessions (srv (act cfg e a m))))" by blast
  moreover from A have "\<forall>x \<in> set (sessions (srv (act cfg e a m))). length (pages (snd x)) \<le> 1" by blast
  moreover from A have "distinct (awaiting_page (act cfg e a m))" by blast
  moreover from A have "\<forall>k \<in> set (awaiting_page (act cfg e a m)).
            \<forall>s. map_of (sessions (srv (act cfg e a m))) k = Some s \<longrightarrow> pages s = []" by blast
  ultimately show ?case using Cons.IH r by simp
qed

lemma act_ignores_page_limit:
  "act (cfg\<lparr>MAX_PAGES_PER_SESSION := n\<rparr>) e a m = act cfg e a m"
  by (cases a)
     (simp_all add: step_ignores_page_limit createSession_until_launch_def
        check_limit_ignores_page_limit)

lemma interleave_ignores_page_limit:
  "interleave (cfg\<lparr>MAX_PAGES_PER_SESSION := n\<rparr>) e as m = interleave cfg e as m"
  by (induction as arbitrary: m) (simp_all add: act_ignores_page_limit)






lemma start_inv:
  "length (sessions (srv start)) + length (awaiting_launch start) \<le> MAX_SESSIONS cfg"
  "distinct (map fst (sessions (srv start)))"
  "\<forall>x \<in> set (sessions (srv start)). length (pages (snd x)) \<le> 1"
  "distinct (awaiting_page start)"
  "\<forall>k \<in> set (awaiting_page start). \<forall>s. map_of (sessions (srv start)) k = Some s \<longrightarrow> pages s = []"
  by (simp_all add: start_def init_def)

section \<open>Sweep and teardown\<close>

text \<open>
  Claim C4. One sweep at time \<open>now\<close> removes exactly the sessions whose idle time
  \<open>now - lastAccessed\<close> is strictly greater than the timeout, keeps every other
  session in place, and returns their number. The ids it removes, in order, are the
  ones selected from the registry as it was before the first removal.
\<close>
theorem sweep_evicts_exactly_expired:
  assumes "distinct (map fst (sessions st))"
  shows "fst (cleanupExpiredSessions cfg e now st)
           = Inr (length (filter (\<lambda>(k, s). now - lastAccessed s > SESSION_TIMEOUT_MS cfg)
                    (sessions st)))
       \<and> sessions (snd (cleanupExpiredSessions cfg e now st))
           = filter (\<lambda>(k, s). \<not> now - lastAccessed s > SESSION_TIMEOUT_MS cfg) (sessions st)
       \<and> deleted_ids (trace (snd (cleanupExpiredSessions cfg e now st)))
           = deleted_ids (trace st)
               @ map fst (filter (\<lambda>(k, s). now - lastAccessed s > SESSION_TIMEOUT_MS cfg)
                   (sessions st))"
  using cleanup_exact[OF assms, of cfg e now] by (simp add: expiredSessions_def)

theorem sweep_evicts_exactly_expired_witness:
  "distinct (map fst (sessions three_sessions))
   \<and> fst (cleanupExpiredSessions CONFIG quiet 1000000 three_sessions) = Inr 1
   \<and> map fst (sessions (snd (cleanupExpiredSessions CONFIG quiet 1000000 three_sessions)))
       = [''ses_below'', ''ses_at'']
   \<and> deleted_ids (trace (snd (cleanupExpiredSessions CONFIG quiet 1000000 three_sessions)))
       = [''ses_above'']"
proof -
  have d: "distinct (map fst (sessions three_sessions))"
    by (simp add: three_sessions_def)
  show ?thesis
    using d sweep_evicts_exactly_expired[OF d, of CONFIG quiet 1000000]
    by (simp add: three_sessions_def CONFIG_def session_at_def)
qed

text \<open>
  Claim C5. Destroying a live session closes every page in order, each close either
  succeeding or being logged with its message while the remaining pages are still
  closed, then closes the browser (a failure is logged), then removes the map entry;
  whatever fails, the call returns true and the id is no longer in the map.
\<close>
theorem destroy_teardown_order:
  assumes "map_of (sessions st) k = Some s"
  shows "\<exists>rs b. destroySession e k st
                  = (True, st\<lparr>sessions := AList.delete k (sessions st),
                              trace := trace st @ rs @ [b, Deleted k]\<rparr>)
          \<and> length rs = length (pages s)
          \<and> (\<forall>i < length rs.
                rs ! i = PageClosed (pages s ! i) \<and> page_close e (pages s ! i) = None \<or>
                (\<exists>m. page_close e (pages s ! i) = Some m
                      \<and> rs ! i = PageCloseError (pages s ! i) m))
          \<and> (b = BrowserClosed (browser s) \<and> browser_close e (browser s) = None \<or>
              (\<exists>m. browser_close e (browser s) = Some m \<and> b = DestroyError k m))
          \<and> map_of (AList.delete k (sessions st)) k = None"
proof (intro exI conjI)
  show "destroySession e k st
          = (True, st\<lparr>sessions := AList.delete k (sessions st),
                      trace := trace st @ close_pages e (pages s)
                                 @ [close_browser e k (browser s), Deleted k]\<rparr>)"
    using assms by (simp add: destroySession_def)
  show "length (close_pages e (pages s)) = length (pages s)" by (rule close_pages_length)
  show "\<forall>i < length (close_pages e (pages s)).
          close_pages e (pages s) ! i = PageClosed (pages s ! i)
            \<and> page_close e (pages s ! i) = None \<or>
          (\<exists>m. page_close e (pages s ! i) = Some m
                \<and> close_pages e (pages s) ! i = PageCloseError (pages s ! i) m)"
    using close_pages_nth by (simp add: close_pages_length)
  show "close_browser e k (browser s) = BrowserClosed (browser s)
          \<and> browser_close e (browser s) = None \<or>
        (\<exists>m. browser_close e (browser s) = Some m
              \<and> close_browser e k (browser s) = DestroyError k m)"
    by (cases "browser_close e (browser s)") (simp_all add: close_browser_def)
  show "map_of (AList.delete k (sessions st)) k = None" by (rule map_of_delete_same)
qed

theorem destroy_teardown_order_witness:
  "map_of (sessions one_session) ''ses_a'' = Some (session_at ''ses_a'' 7 [1, 2] 0)
   \<and> destroySession failing ''ses_a'' one_session
       = (True, \<lparr>sessions = [],
                 trace = [PageCloseError 1 ''Target closed'', PageClosed 2,
                          DestroyError ''ses_a'' ''Protocol error'', Deleted ''ses_a'']\<rparr>)"
proof -
  have h: "map_of (sessions one_session) ''ses_a'' = Some (session_at ''ses_a'' 7 [1, 2] 0)"
    by (simp add: one_session_def)
  from destroy_teardown_order[OF h, of failing] obtain rs b where
    "destroySession failing ''ses_a'' one_session
       = (True, one_session\<lparr>sessions := AList.delete ''ses_a'' (sessions one_session),
                             trace := trace one_session @ rs @ [b, Deleted ''ses_a'']\<rparr>)"
    by blast
  then have "fst (destroySession failing ''ses_a'' one_session) = True" by simp
  moreover have "destroySession failing ''ses_a'' one_session
       = (fst (destroySession failing ''ses_a'' one_session),
          \<lparr>sessions = [],
           trace = [PageCloseError 1 ''Target closed'', PageClosed 2,
                    DestroyError ''ses_a'' ''Protocol error'', Deleted ''ses_a'']\<rparr>)"
    by (simp add: destroySession_def one_session_def session_at_def failing_def
        close_browser_def)
  ultimately show ?thesis using h by simp
qed

text \<open>
  Claim C6. \<open>destroySession\<close> returns true on a live id and false, changing nothing,
  on an absent id; a second call right after a first one returns false; the result
  carries no error, and the DELETE route always answers 200 with that boolean.
\<close>
theorem destroy_idempotent_total:
  "(map_of (sessions st) k \<noteq> None \<longrightarrow> fst (destroySession e k st) = True)
   \<and> (map_of (sessions st) k = None \<longrightarrow> destroySession e k st = (False, st))
   \<and> destroySession e k (snd (destroySession e k st)) = (False, snd (destroySession e k st))
   \<and> fst (session_delete e k st) = (200, DeleteOk (map_of (sessions st) k \<noteq> None))"
proof (intro conjI impI)
  assume "map_of (sessions st) k \<noteq> None"
  then show "fst (destroySession e k st) = True" by (auto simp: destroySession_def)
next
  assume "map_of (sessions st) k = None"
  then show "destroySession e k st = (False, st)" by (rule destroySession_absent)
next
  have "map_of (sessions (snd (destroySession e k st))) k = None"
    by (simp add: destroySession_sessions map_of_delete_same)
  then show "destroySession e k (snd (destroySession e k st))
               = (False, snd (destroySession e k st))"
    by (rule destroySession_absent)
next
  show "fst (session_delete e k st) = (200, DeleteOk (map_of (sessions st) k \<noteq> None))"
    by (auto simp: session_delete_def destroySession_def split: option.splits)
qed

theorem destroy_idempotent_total_witness:
  "map_of (sessions one_session) ''ses_a'' \<noteq> None
   \<and> fst (destroySession failing ''ses_a'' one_session) = True
   \<and> fst (destroySession failing ''ses_a'' (snd (destroySession failing ''ses_a'' one_session)))
       = False
   \<and> map_of (sessions init) ''ses_a'' = None
   \<and> destroySession failing ''ses_a'' init = (False, init)"
proof -
  have h: "map_of (sessions one_session) ''ses_a'' \<noteq> None" by (simp add: one_session_def)
  have n: "map_of (sessions init) ''ses_a'' = None" by (simp add: init_def)
  show ?thesis
    using h n destroy_idempotent_total[of one_session "''ses_a''" failing]
      destroy_idempotent_total[of init "''ses_a''" failing]
    by simp
qed

section \<open>Admission\<close>







section \<open>Routes\<close>

text \<open>
  Claim C8. The health route always answers 200 with status ok, the number of live
  session records (the number of ids a lookup would find), the configured
  \<open>MAX_SESSIONS\<close> and the process uptime, and leaves the server unchanged.
\<close>
theorem health_never_fails:
  "serve cfg e GET_health a (run cfg e ins init)
     = ((200, HealthOk ''ok'' (length (sessions (run cfg e ins init))) (MAX_SESSIONS cfg)
               (process_uptime a)),
        run cfg e ins init)
   \<and> length (sessions (run cfg e ins init)) = card (dom (map_of (sessions (run cfg e ins init))))"
proof -
  have "distinct (map fst (sessions (run cfg e ins init)))"
    by (rule run_distinct) (simp add: init_def)
  then show ?thesis by (simp add: health_def keys_card)
qed

theorem health_never_fails_witness:
  "serve CONFIG quiet GET_health (answers_ok ''u'' 2000) (run CONFIG quiet six_creates init)
     = ((200, HealthOk ''ok'' 5 5 1), run CONFIG quiet six_creates init)"
proof -
  have "length (sessions (run CONFIG quiet six_creates init)) = 5"
    by (simp add: six_creates_def eval_defs)
  then show ?thesis
    using health_never_fails[of CONFIG quiet "answers_ok ''u'' 2000" six_creates]
    by (simp add: CONFIG_def answers_ok_def)
qed

text \<open>
  Claim C10. The info route of a live session stamps \<open>lastAccessed\<close> with the clock of
  the lookup before it builds the reply, so the reply carries that stamp and an idle
  time that is the difference of the two clock reads of this request (zero when they
  agree), whatever \<open>lastAccessed\<close> was before.
\<close>
theorem info_resets_idle_clock:
  assumes "map_of (sessions st) k = Some s"
  shows "fst (session_info k a st)
           = (200, InfoOk (SessionInfo (id' s) (length (pages s)) (currentUrl s) (Date_now a)
                             (Date_now_reply a - Date_now a) (metadata s)))
       \<and> map_of (sessions (snd (session_info k a st))) k = Some (s\<lparr>lastAccessed := Date_now a\<rparr>)
       \<and> (Date_now_reply a = Date_now a \<longrightarrow>
            (\<exists>i. fst (session_info k a st) = (200, InfoOk i) \<and> idleTime i = 0))"
  by (simp add: info_live[OF assms] info_of_def map_of_map_entry assms)

theorem info_resets_idle_clock_witness:
  "map_of (sessions (five_sessions 0)) ''ses_1'' = Some (session_at ''ses_1'' 1 [] 0)
   \<and> fst (session_info ''ses_1'' (answers_ok ''u'' 1000000) (five_sessions 0))
       = (200, InfoOk (SessionInfo ''ses_1'' 0 None 1000000 0 []))
   \<and> map_option lastAccessed
        (map_of (sessions (snd (session_info ''ses_1'' (answers_ok ''u'' 1000000)
                                  (five_sessions 0)))) ''ses_1'') = Some 1000000"
proof -
  have h: "map_of (sessions (five_sessions 0)) ''ses_1'' = Some (session_at ''ses_1'' 1 [] 0)"
    by (simp add: five_sessions_def)
  show ?thesis
    using h info_resets_idle_clock[OF h, of "answers_ok ''u'' 1000000"]
    by (simp add: answers_ok_def session_at_def)
qed

text \<open>
  Claim C7. Navigate on a live session: when \<open>page.goto\<close> rejects, the reply is the
  500 failure carrying the message of the rejection and no session's \<open>currentUrl\<close>
  changes; \<open>currentUrl\<close> changes only when \<open>page.goto\<close> succeeded, and then to the
  requested url.
\<close>
theorem navigate_failure_keeps_currentUrl:
  assumes "map_of (sessions st) k = Some s"
  shows "(page_goto a = Some m \<and> page_setViewport a = None
            \<and> (pages s \<noteq> [] \<or> (\<exists>p. browser_newPage a = Inr p)) \<longrightarrow>
          fst (session_navigate k url a st) = (500, Failure m))
       \<and> (page_goto a \<noteq> None \<longrightarrow>
            (\<forall>k'. map_option currentUrl (map_of (sessions (snd (session_navigate k url a st))) k')
                   = map_option currentUrl (map_of (sessions st) k')))
       \<and> (map_option currentUrl (map_of (sessions (snd (session_navigate k url a st))) k)
              \<noteq> Some (currentUrl s) \<longrightarrow>
            page_goto a = None
            \<and> map_option currentUrl (map_of (sessions (snd (session_navigate k url a st))) k)
                = Some (Some url))"
proof (intro conjI impI allI)
  assume "page_goto a = Some m \<and> page_setViewport a = None
            \<and> (pages s \<noteq> [] \<or> (\<exists>p. browser_newPage a = Inr p))"
  then show "fst (session_navigate k url a st) = (500, Failure m)"
    using navigate_goto_fails[OF assms] by blast
next
  fix k' assume g: "page_goto a \<noteq> None"
  show "map_option currentUrl (map_of (sessions (snd (session_navigate k url a st))) k')
          = map_option currentUrl (map_of (sessions st) k')"
  proof (cases "k' = k")
    case True
    then show ?thesis using g by (auto simp: navigate_currentUrl[OF assms] assms)
  next
    case False
    then show ?thesis by (simp add: navigate_other)
  qed
next
  assume c: "map_option currentUrl (map_of (sessions (snd (session_navigate k url a st))) k)
              \<noteq> Some (currentUrl s)"
  then show "page_goto a = None"
    by (auto simp: navigate_currentUrl[OF assms] split: if_splits)
  from c show "map_option currentUrl (map_of (sessions (snd (session_navigate k url a st))) k)
                = Some (Some url)"
    by (auto simp: navigate_currentUrl[OF assms] split: if_splits)
qed

theorem navigate_failure_keeps_currentUrl_witness:
  "map_of (sessions one_visited) ''ses_a''
     = Some ((session_at ''ses_a'' 7 [1] 0)\<lparr>currentUrl := Some ''https://example.com''\<rparr>)
   \<and> fst (session_navigate ''ses_a'' ''https://example.org''
            ((answers_ok ''u'' 10)\<lparr>page_goto := Some ''net::ERR_NAME_NOT_RESOLVED''\<rparr>) one_visited)
       = (500, Failure ''net::ERR_NAME_NOT_RESOLVED'')
   \<and> map_option currentUrl
        (map_of (sessions (snd (session_navigate ''ses_a'' ''https://example.org''
            ((answers_ok ''u'' 10)\<lparr>page_goto := Some ''net::ERR_NAME_NOT_RESOLVED''\<rparr>) one_visited)))
           ''ses_a'') = Some (Some ''https://example.com'')
   \<and> map_option currentUrl
        (map_of (sessions (snd (session_navigate ''ses_a'' ''https://example.org''
            (answers_ok ''u'' 10) one_visited))) ''ses_a'') = Some (Some ''https://example.org'')"
proof -
  let ?s = "(session_at ''ses_a'' 7 [1] 0)\<lparr>currentUrl := Some ''https://example.com''\<rparr>"
  let ?bad = "(answers_ok ''u'' 10)\<lparr>page_goto := Some ''net::ERR_NAME_NOT_RESOLVED''\<rparr>"
  have h: "map_of (sessions one_visited) ''ses_a'' = Some ?s"
    by (simp add: one_visited_def)
  have g: "page_goto ?bad = Some ''net::ERR_NAME_NOT_RESOLVED''" "page_setViewport ?bad = None"
    "pages ?s \<noteq> []" "page_goto ?bad \<noteq> None"
    by (simp_all add: answers_ok_def session_at_def)
  have ok: "map_option currentUrl
        (map_of (sessions (snd (session_navigate ''ses_a'' ''https://example.org''
            (answers_ok ''u'' 10) one_visited))) ''ses_a'') \<noteq> Some (currentUrl ?s)"
    by (simp add: navigate_currentUrl[OF h] answers_ok_def session_at_def)
  from navigate_failure_keeps_currentUrl[OF h, of ?bad "''net::ERR_NAME_NOT_RESOLVED''"
      "''https://example.org''"] g
  have 1: "fst (session_navigate ''ses_a'' ''https://example.org'' ?bad one_visited)
             = (500, Failure ''net::ERR_NAME_NOT_RESOLVED'')"
    and 2: "map_option currentUrl
        (map_of (sessions (snd (session_navigate ''ses_a'' ''https://example.org'' ?bad
           one_visited))) ''ses_a'') = map_option currentUrl (map_of (sessions one_visited) ''ses_a'')"
    by blast+
  from navigate_failure_keeps_currentUrl[OF h, of "answers_ok ''u'' 10" "''x''"
      "''https://example.org''"] ok
  have 3: "map_option currentUrl
        (map_of (sessions (snd (session_navigate ''ses_a'' ''https://example.org''
            (answers_ok ''u'' 10) one_visited))) ''ses_a'') = Some (Some ''https://example.org'')"
    by blast
  show ?thesis using h 1 2 3 by (simp add: session_at_def)
qed

text \<open>
  Claim C9, as the server behaves. Starting from the empty registry, in every
  interleaving in which no request tests the pages of a session while another request
  on that session is suspended at \<^verbatim>\<open>newPage\<close>, each session holds at most one page after
  every step: a new session has none, \<open>getCurrentPage\<close> pushes a page only onto a list it
  found empty, and nothing else pushes. So the info and list routes report a
  \<open>pagesCount\<close> of 0 or 1, below \<open>MAX_PAGES_PER_SESSION\<close>, a setting no step reads.
\<close>

theorem at_most_one_page_when_requests_apart:
  assumes "one_request_per_session cfg e as start"
  shows "(\<forall>x \<in> set (sessions (srv (interleave cfg e as start))). length (pages (snd x)) \<le> 1)
   \<and> (\<forall>i. fst (serve cfg e (GET_session_info k) a (srv (interleave cfg e as start)))
            = (200, InfoOk i) \<longrightarrow> pagesCount i \<le> 1)
   \<and> (\<forall>rows n. fst (serve cfg e GET_sessions a (srv (interleave cfg e as start)))
                 = (200, ListOk rows n) \<longrightarrow> (\<forall>i \<in> set rows. pagesCount i \<le> 1))
   \<and> (createSession cfg e md t u l tc st = (Inr sd, st') \<longrightarrow> pages sd = [])
   \<and> (getCurrentPage np s = Inr (p, s') \<longrightarrow>
        (if pages s = [] then np = Inr p \<and> s' = s\<lparr>pages := [p]\<rparr>
         else s' = s \<and> p = last (pages s)))
   \<and> 1 < MAX_PAGES_PER_SESSION CONFIG
   \<and> interleave (cfg\<lparr>MAX_PAGES_PER_SESSION := n\<rparr>) e as m = interleave cfg e as m"
proof -
  have inv: "\<forall>x \<in> set (sessions (srv (interleave cfg e as start))). length (pages (snd x)) \<le> 1"
    by (rule interleave_pages[OF start_inv(2-5) assms])
  have info: "\<forall>i. fst (serve cfg e (GET_session_info k) a (srv (interleave cfg e as start)))
            = (200, InfoOk i) \<longrightarrow> pagesCount i \<le> 1"
    using info_pagesCount[OF inv] by simp
  have list: "\<forall>rows n. fst (serve cfg e GET_sessions a (srv (interleave cfg e as start)))
                 = (200, ListOk rows n) \<longrightarrow> (\<forall>i \<in> set rows. pagesCount i \<le> 1)"
    using list_pagesCount[OF inv] by simp
  have create: "createSession cfg e md t u l tc st = (Inr sd, st') \<longrightarrow> pages sd = []"
    using createSession_cases[of cfg e md t u l tc st] by auto
  have gcp: "getCurrentPage np s = Inr (p, s') \<longrightarrow>
        (if pages s = [] then np = Inr p \<and> s' = s\<lparr>pages := [p]\<rparr>
         else s' = s \<and> p = last (pages s))"
    by (auto simp: getCurrentPage_def split: sum.splits)
  have lim: "1 < MAX_PAGES_PER_SESSION CONFIG" by (simp add: CONFIG_def)
  show ?thesis using inv info list create gcp lim interleave_ignores_page_limit by blast
qed

theorem at_most_one_page_when_requests_apart_witness:
  "one_request_per_session CONFIG quiet two_sessions_interleaved start
   \<and> map (\<lambda>x. (fst x, pages (snd x)))
        (sessions (srv (interleave CONFIG quiet two_sessions_interleaved start)))
       = [(''ses_a'', [1]), (''ses_b'', [2])]
   \<and> list_all (\<lambda>x. length (pages (snd x)) \<le> 1)
        (sessions (srv (interleave CONFIG quiet two_sessions_interleaved start)))
   \<and> getCurrentPage (Inr 2) (session_at ''ses_a'' 7 [1] 0)
       = Inr (1, session_at ''ses_a'' 7 [1] 0)
   \<and> getCurrentPage (Inr 2) (session_at ''ses_a'' 7 [] 0)
       = Inr (2, session_at ''ses_a'' 7 [2] 0)"
proof -
  have c: "one_request_per_session CONFIG quiet two_sessions_interleaved start"
    by (simp add: two_sessions_interleaved_def machine_defs eval_defs route_defs)
  have r: "map (\<lambda>x. (fst x, pages (snd x)))
        (sessions (srv (interleave CONFIG quiet two_sessions_interleaved start)))
       = [(''ses_a'', [1]), (''ses_b'', [2])]"
    by (simp add: two_sessions_interleaved_def machine_defs eval_defs route_defs)
  have g1: "getCurrentPage (Inr 2) (session_at ''ses_a'' 7 [1] 0)
       = Inr (1, session_at ''ses_a'' 7 [1] 0)"
    and g2: "getCurrentPage (Inr 2) (session_at ''ses_a'' 7 [] 0)
       = Inr (2, session_at ''ses_a'' 7 [2] 0)"
    by (simp_all add: getCurrentPage_def session_at_def)
  from at_most_one_page_when_requests_apart[OF c]
  have "list_all (\<lambda>x. length (pages (snd x)) \<le> 1)
        (sessions (srv (interleave CONFIG quiet two_sessions_interleaved start)))"
    by (simp add: list_all_iff)
  then show ?thesis using c r g1 g2 by simp
qed

text \<open>
  Claim C9 as stated does not hold when two requests on one session overlap: both find
  the pages empty before either page is opened, both push, and the info route reports
  a \<open>pagesCount\<close> of 2.
\<close>

theorem overlapping_requests_open_two_pages:
  "map (pages \<circ> snd) (sessions (srv (interleave CONFIG quiet two_overlapping_requests start)))
     = [[1, 2]]
   \<and> fst (serve CONFIG quiet (GET_session_info ''ses_a'') (answers_ok ''u'' 60)
            (srv (interleave CONFIG quiet two_overlapping_requests start)))
       = (200, InfoOk (SessionInfo ''ses_a'' 2 None 60 0 []))"
  by (simp add: two_overlapping_requests_def machine_defs eval_defs route_defs)

section \<open>Temporary sessions of the tool handlers\<close>

text \<open>
  Claim C1, as the handlers behave. When \<open>puppeteer_navigate\<close> or \<open>puppeteer_screenshot\<close>
  is called without a session id and every request it sends to the browser server
  returns a body (whatever the body says: the navigation, the content read or the
  screenshot may have failed on the server), the handler returns normally, every
  record left in the registry was there before the call, and the id the create
  request answered with is no longer in the map. A screenshot call without a url
  throws before anything is created.
\<close>

theorem ephemeral_session_destroyed_when_requests_return:
  assumes "tempSession_of sessionId"
    and "fst w_create = Delivered" and "fst w_first = Delivered"
    and "fst w_second = Delivered" and "fst w_delete = Delivered"
  shows "(\<exists>bs. fst (puppeteer_navigate cfg e sessionId url w_create w_first w_second w_delete st)
                = ToolText bs)
       \<and> set (sessions (snd (puppeteer_navigate cfg e sessionId url
                                w_create w_first w_second w_delete st))) \<subseteq> set (sessions st)
       \<and> (fst (serve cfg e (POST_session_create temporary) (snd w_create) st)
             = (200, CreateOk k md) \<longrightarrow>
           map_of (sessions (snd (puppeteer_navigate cfg e sessionId url
                                    w_create w_first w_second w_delete st))) k = None)
       \<and> (surl = Some u \<and> u \<noteq> [] \<longrightarrow>
            (\<exists>bs. fst (puppeteer_screenshot cfg e sessionId surl sel
                         w_create w_first w_second w_delete st) = ToolText bs)
            \<and> set (sessions (snd (puppeteer_screenshot cfg e sessionId surl sel
                                     w_create w_first w_second w_delete st))) \<subseteq> set (sessions st)
            \<and> (fst (serve cfg e (POST_session_create temporary) (snd w_create) st)
                  = (200, CreateOk k md) \<longrightarrow>
                map_of (sessions (snd (puppeteer_screenshot cfg e sessionId surl sel
                                         w_create w_first w_second w_delete st))) k = None))
       \<and> (surl = None \<or> surl = Some [] \<longrightarrow>
            snd (puppeteer_screenshot cfg e sessionId surl sel
                   w_create w_first w_second w_delete st) = st)"
proof -
  note N = navigate_temp_state[OF assms, of cfg e url st]
  note G = temp_session_gone[OF session_create_result refl]
  have n1: "set (sessions (snd (puppeteer_navigate cfg e sessionId url
                                w_create w_first w_second w_delete st))) \<subseteq> set (sessions st)"
    by (rule G(1)[OF N(2)])
  have n2: "fst (serve cfg e (POST_session_create temporary) (snd w_create) st)
             = (200, CreateOk k md) \<longrightarrow>
           map_of (sessions (snd (puppeteer_navigate cfg e sessionId url
                                    w_create w_first w_second w_delete st))) k = None"
    using G(2)[OF N(2), of k md] by simp
  have s: "surl = Some u \<and> u \<noteq> [] \<longrightarrow>
            (\<exists>bs. fst (puppeteer_screenshot cfg e sessionId surl sel
                         w_create w_first w_second w_delete st) = ToolText bs)
            \<and> set (sessions (snd (puppeteer_screenshot cfg e sessionId surl sel
                                     w_create w_first w_second w_delete st))) \<subseteq> set (sessions st)
            \<and> (fst (serve cfg e (POST_session_create temporary) (snd w_create) st)
                  = (200, CreateOk k md) \<longrightarrow>
                map_of (sessions (snd (puppeteer_screenshot cfg e sessionId surl sel
                                         w_create w_first w_second w_delete st))) k = None)"
  proof (intro impI)
    assume h: "surl = Some u \<and> u \<noteq> []"
    then have u: "u \<noteq> []" and su: "surl = Some u" by simp_all
    note S = screenshot_temp_state[OF assms(1) u assms(2-5), of cfg e sel st]
    show "(\<exists>bs. fst (puppeteer_screenshot cfg e sessionId surl sel
                         w_create w_first w_second w_delete st) = ToolText bs)
            \<and> set (sessions (snd (puppeteer_screenshot cfg e sessionId surl sel
                                     w_create w_first w_second w_delete st))) \<subseteq> set (sessions st)
            \<and> (fst (serve cfg e (POST_session_create temporary) (snd w_create) st)
                  = (200, CreateOk k md) \<longrightarrow>
                map_of (sessions (snd (puppeteer_screenshot cfg e sessionId surl sel
                                         w_create w_first w_second w_delete st))) k = None)"
      using S(1) G(1)[OF S(2)] G(2)[OF S(2), of k md] by (simp add: su)
  qed
  have nourl: "surl = None \<or> surl = Some [] \<longrightarrow>
            snd (puppeteer_screenshot cfg e sessionId surl sel
                   w_create w_first w_second w_delete st) = st"
    using screenshot_temp_no_url[OF assms(1)] by simp
  show ?thesis using N(1) n1 n2 s nourl by blast
qed

theorem ephemeral_session_destroyed_when_requests_return_witness:
  "tempSession_of None
   \<and> fst (puppeteer_navigate CONFIG quiet None ''https://example.invalid''
          (Delivered, answers_ok ''a'' 10) (Delivered, goto_fails)
          (Delivered, answers_ok ''u'' 30) (Delivered, answers_ok ''u'' 40) init)
       = ToolText [Failure ''net::ERR_NAME_NOT_RESOLVED'',
                   ContentOk ''Example Domain'' ''https://example.com/'' ''<html></html>'' 13]
   \<and> sessions (snd (puppeteer_navigate CONFIG quiet None ''https://example.invalid''
          (Delivered, answers_ok ''a'' 10) (Delivered, goto_fails)
          (Delivered, answers_ok ''u'' 30) (Delivered, answers_ok ''u'' 40) init)) = []
   \<and> deleted_ids (trace (snd (puppeteer_navigate CONFIG quiet None ''https://example.invalid''
          (Delivered, answers_ok ''a'' 10) (Delivered, goto_fails)
          (Delivered, answers_ok ''u'' 30) (Delivered, answers_ok ''u'' 40) init))) = [''ses_a'']
   \<and> fst (puppeteer_screenshot CONFIG quiet None (Some ''https://example.com'') None
          (Delivered, answers_ok ''b'' 10) (Delivered, answers_ok ''u'' 20)
          (Delivered, shot_fails) (Delivered, answers_ok ''u'' 40) init)
       = ToolText [Failure ''Protocol error (Page.captureScreenshot)'']
   \<and> sessions (snd (puppeteer_screenshot CONFIG quiet None (Some ''https://example.com'') None
          (Delivered, answers_ok ''b'' 10) (Delivered, answers_ok ''u'' 20)
          (Delivered, shot_fails) (Delivered, answers_ok ''u'' 40) init)) = []"
proof -
  have t: "tempSession_of None" by (simp add: tempSession_of_def)
  have r: "fst (puppeteer_navigate CONFIG quiet None ''https://example.invalid''
          (Delivered, answers_ok ''a'' 10) (Delivered, goto_fails)
          (Delivered, answers_ok ''u'' 30) (Delivered, answers_ok ''u'' 40) init)
       = ToolText [Failure ''net::ERR_NAME_NOT_RESOLVED'',
                   ContentOk ''Example Domain'' ''https://example.com/'' ''<html></html>'' 13]"
    "deleted_ids (trace (snd (puppeteer_navigate CONFIG quiet None ''https://example.invalid''
          (Delivered, answers_ok ''a'' 10) (Delivered, goto_fails)
          (Delivered, answers_ok ''u'' 30) (Delivered, answers_ok ''u'' 40) init))) = [''ses_a'']"
    "fst (puppeteer_screenshot CONFIG quiet None (Some ''https://example.com'') None
          (Delivered, answers_ok ''b'' 10) (Delivered, answers_ok ''u'' 20)
          (Delivered, shot_fails) (Delivered, answers_ok ''u'' 40) init)
       = ToolText [Failure ''Protocol error (Page.captureScreenshot)'']"
    by (simp_all add: client_defs eval_defs route_defs)
  note T = ephemeral_session_destroyed_when_requests_return[OF t,
      of "(Delivered, answers_ok ''a'' 10)" "(Delivered, goto_fails)"
         "(Delivered, answers_ok ''u'' 30)" "(Delivered, answers_ok ''u'' 40)"
         CONFIG quiet "''https://example.invalid''" init]
  note T2 = ephemeral_session_destroyed_when_requests_return[OF t,
      of "(Delivered, answers_ok ''b'' 10)" "(Delivered, answers_ok ''u'' 20)"
         "(Delivered, shot_fails)" "(Delivered, answers_ok ''u'' 40)"
         CONFIG quiet _ init _ _ "Some ''https://example.com''" "''https://example.com''" None]
  have e1: "sessions (snd (puppeteer_navigate CONFIG quiet None ''https://example.invalid''
          (Delivered, answers_ok ''a'' 10) (Delivered, goto_fails)
          (Delivered, answers_ok ''u'' 30) (Delivered, answers_ok ''u'' 40) init)) = []"
    using T by (simp add: init_def)
  have e2: "sessions (snd (puppeteer_screenshot CONFIG quiet None (Some ''https://example.com'') None
          (Delivered, answers_ok ''b'' 10) (Delivered, answers_ok ''u'' 20)
          (Delivered, shot_fails) (Delivered, answers_ok ''u'' 40) init)) = []"
    using T2 by (simp add: init_def)
  show ?thesis using t r e1 e2 by simp
qed

text \<open>
  Claim C1 as stated does not hold on every exit path: \<open>browserServerRequest\<close> throws
  when \<open>execSync\<close> or \<open>JSON.parse\<close> throws, the handlers have no \<^verbatim>\<open>finally\<close>, and the
  throw leaves through the catch around the switch without the DELETE request. Here
  the navigate request of the navigate handler and the screenshot request of the
  screenshot handler throw, and the session created for the call stays in the
  registry.
\<close>

theorem ephemeral_session_left_when_request_throws:
  "fst (puppeteer_navigate CONFIG quiet None ''https://example.com''
          (Delivered, answers_ok ''a'' 10)
          (Lost ''Command failed: proot-distro login alpine'', answers_ok ''u'' 20)
          (Delivered, answers_ok ''u'' 30) (Delivered, answers_ok ''u'' 40) init)
     = ToolError ''Error: Browser server request failed: Command failed: proot-distro login alpine''
   \<and> map fst (sessions (snd (puppeteer_navigate CONFIG quiet None ''https://example.com''
          (Delivered, answers_ok ''a'' 10)
          (Lost ''Command failed: proot-distro login alpine'', answers_ok ''u'' 20)
          (Delivered, answers_ok ''u'' 30) (Delivered, answers_ok ''u'' 40) init)))
       = [''ses_a'']
   \<and> fst (puppeteer_screenshot CONFIG quiet None (Some ''https://example.com'') None
          (Delivered, answers_ok ''b'' 10) (Delivered, answers_ok ''u'' 20)
          (Unsent ''spawnSync /bin/sh ETIMEDOUT'', answers_ok ''u'' 30)
          (Delivered, answers_ok ''u'' 40) init)
     = ToolError ''Error: Browser server request failed: spawnSync /bin/sh ETIMEDOUT''
   \<and> map fst (sessions (snd (puppeteer_screenshot CONFIG quiet None
          (Some ''https://example.com'') None
          (Delivered, answers_ok ''b'' 10) (Delivered, answers_ok ''u'' 20)
          (Unsent ''spawnSync /bin/sh ETIMEDOUT'', answers_ok ''u'' 30)
          (Delivered, answers_ok ''u'' 40) init)))
       = [''ses_b'']"
  by (simp add: client_defs eval_defs route_defs)

end
